theory Spec2Isabelle
  imports Main
begin

section \<open>The configuration constants of the launcher scripts\<close>

text \<open>
  \<^verbatim>\<open>paralledExperiments.py\<close> and \<^verbatim>\<open>oneExperiment.py\<close> take all their parameters from
  module-level constants. They are collected in a record; the two counts
  (\<^verbatim>\<open>Iteration\<close>, \<^verbatim>\<open>ParalleledNum\<close>) are natural numbers, a triple is
  \<^verbatim>\<open>(instance, setting, controller)\<close>.
\<close>

type_synonym triple = "string \<times> string \<times> string"

record config =
  working_directory :: string
  experimentFolder :: string
  InstanceFolder :: string
  SettingFolder :: string
  controllerFolder :: string
  Iteration :: nat
  ParalleledNum :: nat
  FileNames :: "triple list"

section \<open>Building the job queue\<close>

text \<open>
  The path separator written \<^verbatim>\<open>"\"\<close> in the format strings: \<^verbatim>\<open>"{}\{}.xlayo"\<close> holds a
  backslash between the two fields (\<^verbatim>\<open>\{\<close> is no escape sequence of Python).
\<close>

definition backslash :: char where
  "backslash = CHR 0x5C"

text \<open>
  \<^verbatim>\<open>s.rsplit(sep, 1)\<close> for a one-character separator: the string is cut at the last
  occurrence of \<open>sep\<close>; without an occurrence the result is the one-element list \<open>[s]\<close>.
\<close>

definition rsplit1 :: "char \<Rightarrow> string \<Rightarrow> string list" where
  "rsplit1 sep s =
     (let right_rev = takeWhile (\<lambda>ch. ch \<noteq> sep) (rev s);
          left_rev = dropWhile (\<lambda>ch. ch \<noteq> sep) (rev s)
      in if left_rev = [] then [s] else [rev (tl left_rev), rev right_rev])"

text \<open>Line 45 of \<^verbatim>\<open>paralledExperiments.py\<close>:
  \<^verbatim>\<open>outputDir = "{}\{}".format(experimentFolder, instance.rsplit('r', 1)[0])\<close>.
  The list returned by \<^verbatim>\<open>rsplit\<close> is never empty, so \<^verbatim>\<open>[0]\<close> cannot raise.\<close>

definition outputDir :: "config \<Rightarrow> string \<Rightarrow> string" where
  "outputDir c instance = experimentFolder c @ [backslash] @ hd (rsplit1 CHR ''r'' instance)"

definition instPath :: "config \<Rightarrow> string \<Rightarrow> string" where
  "instPath c instance = InstanceFolder c @ [backslash] @ instance @ ''.xlayo''"

definition settPath :: "config \<Rightarrow> string \<Rightarrow> string" where
  "settPath c setting = SettingFolder c @ [backslash] @ setting @ ''.xsett''"

definition contPath :: "config \<Rightarrow> string \<Rightarrow> string" where
  "contPath c controller = controllerFolder c @ [backslash] @ controller @ ''.xconf''"

text \<open>The body of the inner loop (lines 42-46 of \<^verbatim>\<open>paralledExperiments.py\<close>): the job
  built from one triple.\<close>

fun mk_cmd :: "config \<Rightarrow> triple \<Rightarrow> string list" where
  "mk_cmd c (instance, setting, controller) =
     [''dotnet'', ''run'', instPath c instance, settPath c setting,
      contPath c controller, outputDir c instance]"

text \<open>The same body in \<^verbatim>\<open>oneExperiment.py\<close> (lines 26-30), where
  \<^verbatim>\<open>outputDir = experimentFolder\<close>.\<close>

fun mk_cmd_one :: "config \<Rightarrow> triple \<Rightarrow> string list" where
  "mk_cmd_one c (instance, setting, controller) =
     [''dotnet'', ''run'', instPath c instance, settPath c setting,
      contPath c controller, experimentFolder c]"

text \<open>
  \<^verbatim>\<open>for instance, setting, controller in FileNames: ...; cmds.append([...])\<close>: the inner
  loop appends one job per triple to the queue built so far. The loop body is a
  parameter, as the two scripts differ in it only.
\<close>

fun inner_loop :: "(triple \<Rightarrow> string list) \<Rightarrow> triple list \<Rightarrow> string list list \<Rightarrow> string list list" where
  "inner_loop mk [] cmds = cmds"
| "inner_loop mk (f # fs) cmds = inner_loop mk fs (cmds @ [mk f])"

text \<open>\<^verbatim>\<open>for i in range(Iteration)\<close>: the body does not read \<open>i\<close>, so the loop is
  recursion on the number of rounds left.\<close>

fun outer_loop :: "(triple \<Rightarrow> string list) \<Rightarrow> triple list \<Rightarrow> nat \<Rightarrow> string list list \<Rightarrow> string list list" where
  "outer_loop mk fs 0 cmds = cmds"
| "outer_loop mk fs (Suc n) cmds = outer_loop mk fs n (inner_loop mk fs cmds)"

definition build_cmds :: "config \<Rightarrow> string list list" where
  "build_cmds c = outer_loop (mk_cmd c) (FileNames c) (Iteration c) []"

definition build_cmds_one :: "config \<Rightarrow> string list list" where
  "build_cmds_one c = outer_loop (mk_cmd_one c) (FileNames c) (Iteration c) []"

section \<open>The clock and the seed\<close>

text \<open>
  The world outside the script: \<open>exit_status env k t\<close> is what \<^verbatim>\<open>poll()\<close> returns at
  time \<open>t\<close> on the handle of the process started for job \<open>k\<close> (\<open>None\<close> while it
  runs, its exit code afterwards), and \<open>utcoffset env\<close> is the offset of the host's
  local time from UTC, in seconds. Times are microseconds since the epoch.
\<close>

record env =
  exit_status :: "nat \<Rightarrow> int \<Rightarrow> int option"
  utcoffset :: int

text \<open>A \<^verbatim>\<open>datetime\<close> object: its calendar fields and its \<^verbatim>\<open>tzinfo\<close> (the UTC offset
  in seconds, \<open>None\<close> for a naive object).\<close>

record datetime =
  year :: int
  month :: int
  day :: int
  hour :: int
  minute :: int
  second :: int
  microsecond :: int
  tzinfo :: "int option"

text \<open>The proleptic Gregorian date of a day number counted from 1970-01-01, as the
  platform's conversion of a timestamp computes it.\<close>

definition civil_from_days :: "int \<Rightarrow> int \<times> int \<times> int" where
  "civil_from_days z0 =
     (let z = z0 + 719468;
          era = z div 146097;
          doe = z - era * 146097;
          yoe = (doe - doe div 1460 + doe div 36524 - doe div 146096) div 365;
          y = yoe + era * 400;
          doy = doe - (365 * yoe + yoe div 4 - yoe div 100);
          mp = (5 * doy + 2) div 153;
          d = doy - (153 * mp + 2) div 5 + 1;
          m = (if mp < 10 then mp + 3 else mp - 9)
      in (if m \<le> 2 then y + 1 else y, m, d))"

text \<open>The naive \<^verbatim>\<open>datetime\<close> whose fields read a wall clock showing \<open>us\<close>
  microseconds since the epoch.\<close>

definition fromtimestamp :: "int \<Rightarrow> datetime" where
  "fromtimestamp us =
     (let secs = us div 1000000;
          sod = secs mod 86400;
          ymd = civil_from_days (secs div 86400)
      in \<lparr>year = fst ymd, month = fst (snd ymd), day = snd (snd ymd),
          hour = sod div 3600, minute = sod mod 3600 div 60, second = sod mod 60,
          microsecond = us mod 1000000, tzinfo = None\<rparr>)"

text \<open>\<^verbatim>\<open>datetime.now()\<close> without an argument: the naive local time of the host.\<close>

definition now :: "env \<Rightarrow> int \<Rightarrow> datetime" where
  "now env t = fromtimestamp (t + utcoffset env * 1000000)"

text \<open>\<^verbatim>\<open>timezone(timedelta(hours=h))\<close>, as its offset in seconds.\<close>

definition timezone_hours :: "int \<Rightarrow> int" where
  "timezone_hours h = h * 3600"

text \<open>\<^verbatim>\<open>d.replace(tzinfo=tz)\<close>: the same fields with another \<^verbatim>\<open>tzinfo\<close>; the date and
  time data are not converted.\<close>

definition replace_tzinfo :: "datetime \<Rightarrow> int \<Rightarrow> datetime" where
  "replace_tzinfo d tz = d\<lparr>tzinfo := Some tz\<rparr>"

definition digit_char :: "nat \<Rightarrow> char" where
  "digit_char n = char_of (48 + n)"

text \<open>A field printed by \<^verbatim>\<open>%m\<close>, \<^verbatim>\<open>%d\<close>, \<^verbatim>\<open>%H\<close>, \<^verbatim>\<open>%M\<close> or \<^verbatim>\<open>%S\<close>: two decimal
  digits, zero-padded (the fields are below 100).\<close>

definition fmt2 :: "int \<Rightarrow> string" where
  "fmt2 n = [digit_char (nat n div 10), digit_char (nat n mod 10)]"

text \<open>\<^verbatim>\<open>d.strftime("%m%d%H%M%S")\<close>\<close>

definition strftime_mdHMS :: "datetime \<Rightarrow> string" where
  "strftime_mdHMS d = fmt2 (month d) @ fmt2 (day d) @ fmt2 (hour d) @ fmt2 (minute d) @ fmt2 (second d)"

text \<open>Line 56 of \<^verbatim>\<open>paralledExperiments.py\<close> (line 40 of \<^verbatim>\<open>oneExperiment.py\<close>), in two
  steps: the object that is formatted, and the string.\<close>

definition dateTime_object :: "env \<Rightarrow> int \<Rightarrow> datetime" where
  "dateTime_object env t = replace_tzinfo (now env t) (timezone_hours 8)"

definition dateTime :: "env \<Rightarrow> int \<Rightarrow> string" where
  "dateTime env t = strftime_mdHMS (dateTime_object env t)"

section \<open>The launcher\<close>

datatype error = IndexError | ZeroDivisionError

text \<open>
  The module-level variables \<^verbatim>\<open>cmds\<close>, \<^verbatim>\<open>NextURLNo\<close> and \<^verbatim>\<open>Processes\<close>, the clock, and a
  record of what the script did to the outside: the \<^verbatim>\<open>Popen\<close> calls (the index of the
  job in the queue and the argument list passed), the \<^verbatim>\<open>poll()\<close> calls (the handle
  polled and what came back) and the progress messages (the two numbers and the triple of line 60).
  A process handle is identified by the index of the job it was started for.
  \<^verbatim>\<open>Popen\<close> is taken to succeed. The clock moves with the calls of \<^verbatim>\<open>time.sleep\<close>.
  The launcher of \<^verbatim>\<open>oneExperiment.py\<close> is the same code but for the pause of its main
  loop (one second) and the text of its progress message.
\<close>

record state =
  cmds :: "string list list"
  NextURLNo :: nat
  Processes :: "nat list"
  clock :: int
  launched :: "(nat \<times> string list) list"
  polled :: "(nat \<times> int option) list"
  printed :: "(nat \<times> nat \<times> triple) list"

text \<open>\<^verbatim>\<open>time.sleep(secs)\<close>\<close>

definition sleep :: "int \<Rightarrow> state \<Rightarrow> state" where
  "sleep secs s = s\<lparr>clock := clock s + secs * 1000000\<rparr>"

text \<open>\<^verbatim>\<open>StartNew()\<close>, lines 51-62. \<^verbatim>\<open>cmds[NextURLNo]\<close> raises \<^verbatim>\<open>IndexError\<close> past the end
  of the queue, and \<^verbatim>\<open>NextURLNo % len(FileNames)\<close> raises \<^verbatim>\<open>ZeroDivisionError\<close> for an
  empty list of triples.\<close>

definition StartNew :: "config \<Rightarrow> env \<Rightarrow> state \<Rightarrow> error + state" where
  "StartNew c env s =
     (let seed = dateTime env (clock s) in
      if \<not> NextURLNo s < length (cmds s) then Inl IndexError
      else
        let job = cmds s ! NextURLNo s @ [seed];
            s1 = s\<lparr>cmds := (cmds s)[NextURLNo s := job]\<rparr>;
            s2 = s1\<lparr>launched := launched s1 @ [(NextURLNo s1, cmds s1 ! NextURLNo s1)]\<rparr>
        in if FileNames c = [] then Inl ZeroDivisionError
           else
             let s3 = s2\<lparr>printed := printed s2 @
                        [(NextURLNo s2 + 1, length (cmds s2),
                          FileNames c ! (NextURLNo s2 mod length (FileNames c)))]\<rparr>;
                 s4 = s3\<lparr>NextURLNo := NextURLNo s3 + 1\<rparr>
             in Inr (s4\<lparr>Processes := Processes s4 @ [NextURLNo s]\<rparr>))"

text \<open>Python's list indexing: a negative index counts from the end, an index outside
  the list raises \<^verbatim>\<open>IndexError\<close>. The result is the position from the front.\<close>

definition py_index :: "'a list \<Rightarrow> int \<Rightarrow> error + nat" where
  "py_index xs i =
     (if 0 \<le> i \<and> i < int (length xs) then Inr (nat i)
      else if i < 0 \<and> - int (length xs) \<le> i then Inr (nat (int (length xs) + i))
      else Inl IndexError)"

text \<open>\<^verbatim>\<open>range(a, b)\<close>\<close>

definition py_range :: "int \<Rightarrow> int \<Rightarrow> int list" where
  "py_range a b = [a..b - 1]"

text \<open>Line 70, \<^verbatim>\<open>Processes[p].poll() is not None\<close>: the poll is recorded, and the
  answer is whether an exit code came back.\<close>

definition poll_at :: "env \<Rightarrow> int \<Rightarrow> state \<Rightarrow> error + (bool \<times> state)" where
  "poll_at env p s =
     (case py_index (Processes s) p of
        Inl e \<Rightarrow> Inl e
      | Inr j \<Rightarrow>
          let code = exit_status env (Processes s ! j) (clock s)
          in Inr (code \<noteq> None, s\<lparr>polled := polled s @ [(Processes s ! j, code)]\<rparr>))"

text \<open>Line 71, \<^verbatim>\<open>del Processes[p]\<close>\<close>

definition del_at :: "int \<Rightarrow> state \<Rightarrow> error + state" where
  "del_at p s =
     (case py_index (Processes s) p of
        Inl e \<Rightarrow> Inl e
      | Inr j \<Rightarrow> Inr (s\<lparr>Processes := take j (Processes s) @ drop (Suc j) (Processes s)\<rparr>))"

text \<open>The \<^verbatim>\<open>for\<close> loop of lines 69-71 over the indices its \<^verbatim>\<open>range\<close> produced.\<close>

fun reap :: "env \<Rightarrow> int list \<Rightarrow> state \<Rightarrow> error + state" where
  "reap env [] s = Inr s"
| "reap env (p # ps) s =
     (case poll_at env p s of
        Inl e \<Rightarrow> Inl e
      | Inr (exited, s1) \<Rightarrow>
          if exited then (case del_at p s1 of Inl e \<Rightarrow> Inl e | Inr s2 \<Rightarrow> reap env ps s2)
          else reap env ps s1)"

text \<open>The \<^verbatim>\<open>while\<close> loop of lines 73-75.\<close>

function refill :: "config \<Rightarrow> env \<Rightarrow> state \<Rightarrow> error + state" where
  "refill c env s =
     (if length (Processes s) < ParalleledNum c \<and> NextURLNo s < length (cmds s)
      then (case StartNew c env (sleep 1 s) of Inl e \<Rightarrow> Inl e | Inr s' \<Rightarrow> refill c env s')
      else Inr s)"
  by pat_completeness auto
termination
proof (relation "measure (\<lambda>(c, env, s). length (cmds s) - NextURLNo s)")
  show "wf (measure (\<lambda>(c, env, s). length (cmds s) - NextURLNo s))" by simp
next
  fix c :: config and env :: env and s s' :: state
  assume "length (Processes s) < ParalleledNum c \<and> NextURLNo s < length (cmds s)"
    and "StartNew c env (sleep 1 s) = Inr s'"
  then show "((c, env, s'), (c, env, s)) \<in> measure (\<lambda>(c, env, s). length (cmds s) - NextURLNo s)"
    by (auto simp: StartNew_def sleep_def Let_def split: if_splits)
qed

declare refill.simps [simp del]

text \<open>\<^verbatim>\<open>CheckRunning()\<close>, lines 64-75\<close>

definition CheckRunning :: "config \<Rightarrow> env \<Rightarrow> state \<Rightarrow> error + state" where
  "CheckRunning c env s =
     (case reap env (py_range (- int (length (Processes s))) 0) s of
        Inl e \<Rightarrow> Inl e
      | Inr s' \<Rightarrow> refill c env s')"

text \<open>The driving loop of lines 79-81. It runs as long as a process is left, so it need
  not return: \<open>None\<close> is the run that goes on forever.\<close>

partial_function (option) driving_loop :: "config \<Rightarrow> env \<Rightarrow> state \<Rightarrow> (error + state) option" where
  "driving_loop c env s =
     (if length (Processes s) > 0
      then (case CheckRunning c env (sleep 60 s) of
              Inl e \<Rightarrow> Some (Inl e)
            | Inr s' \<Rightarrow> driving_loop c env s')
      else Some (Inr s))"

text \<open>The state in which the script reaches line 77, started at time \<open>t0\<close>.\<close>

definition init :: "config \<Rightarrow> int \<Rightarrow> state" where
  "init c t0 = \<lparr>cmds = build_cmds c, NextURLNo = 0, Processes = [], clock = t0,
                launched = [], polled = [], printed = []\<rparr>"

text \<open>The main program, lines 78-81.\<close>

definition main :: "config \<Rightarrow> env \<Rightarrow> int \<Rightarrow> (error + state) option" where
  "main c env t0 =
     (case CheckRunning c env (init c t0) of
        Inl e \<Rightarrow> Some (Inl e)
      | Inr s \<Rightarrow> driving_loop c env s)"

section \<open>The run of the script, statement by statement\<close>

text \<open>
  The points between the statements of the main program and of \<^verbatim>\<open>CheckRunning\<close>; each
  names the statement that runs next. A call of \<^verbatim>\<open>StartNew\<close> is one step. The
  \<^verbatim>\<open>for\<close> loop keeps the indices its \<^verbatim>\<open>range\<close> has still to produce.
\<close>

datatype pc =
    At_CheckRunning
  | At_for "int list"
  | At_del int "int list"
  | At_while
  | At_sleep
  | At_StartNew
  | At_main_while
  | At_main_sleep
  | At_end

datatype run = At pc state | Raised error

fun step :: "config \<Rightarrow> env \<Rightarrow> run \<Rightarrow> run" where
  "step c env (Raised e) = Raised e"
| "step c env (At At_CheckRunning s) = At (At_for (py_range (- int (length (Processes s))) 0)) s"
| "step c env (At (At_for []) s) = At At_while s"
| "step c env (At (At_for (p # ps)) s) =
     (case poll_at env p s of
        Inl e \<Rightarrow> Raised e
      | Inr (exited, s1) \<Rightarrow> if exited then At (At_del p ps) s1 else At (At_for ps) s1)"
| "step c env (At (At_del p ps) s) =
     (case del_at p s of Inl e \<Rightarrow> Raised e | Inr s2 \<Rightarrow> At (At_for ps) s2)"
| "step c env (At At_while s) =
     (if length (Processes s) < ParalleledNum c \<and> NextURLNo s < length (cmds s)
      then At At_sleep s else At At_main_while s)"
| "step c env (At At_sleep s) = At At_StartNew (sleep 1 s)"
| "step c env (At At_StartNew s) =
     (case StartNew c env s of Inl e \<Rightarrow> Raised e | Inr s' \<Rightarrow> At At_while s')"
| "step c env (At At_main_while s) =
     (if length (Processes s) > 0 then At At_main_sleep s else At At_end s)"
| "step c env (At At_main_sleep s) = At At_CheckRunning (sleep 60 s)"
| "step c env (At At_end s) = At At_end s"

text \<open>The script after \<open>n\<close> steps from line 78, started at time \<open>t0\<close>.\<close>

definition exec :: "config \<Rightarrow> env \<Rightarrow> int \<Rightarrow> nat \<Rightarrow> run" where
  "exec c env t0 n = (step c env ^^ n) (At At_CheckRunning (init c t0))"

text \<open>
  What holds at each of these points: the queue is empty if there are no triples, at
  most \<^verbatim>\<open>ParalleledNum\<close> processes are active, the jobs launched so far are those below
  the cursor in order, and, depending on the point: the indices the \<^verbatim>\<open>for\<close> loop has
  still to visit are the last ones of the list, counted from the end; a dispatch is
  only under way with a free slot and a job left.
\<close>

fun pc_inv :: "config \<Rightarrow> pc \<Rightarrow> state \<Rightarrow> bool" where
  "pc_inv c (At_for ps) s =
     (ps = py_range (- int (length ps)) 0 \<and> length ps \<le> length (Processes s))"
| "pc_inv c (At_del p ps) s =
     (p = - int (Suc (length ps)) \<and> ps = py_range (- int (length ps)) 0 \<and>
      length ps < length (Processes s))"
| "pc_inv c At_sleep s =
     (length (Processes s) < ParalleledNum c \<and> NextURLNo s < length (cmds s))"
| "pc_inv c At_StartNew s =
     (length (Processes s) < ParalleledNum c \<and> NextURLNo s < length (cmds s))"
| "pc_inv c At_CheckRunning s = True"
| "pc_inv c At_while s = True"
| "pc_inv c At_main_while s = True"
| "pc_inv c At_main_sleep s = True"
| "pc_inv c At_end s = True"

fun run_inv :: "config \<Rightarrow> run \<Rightarrow> bool" where
  "run_inv c (Raised e) = False"
| "run_inv c (At pc s) =
     ((FileNames c \<noteq> [] \<or> cmds s = []) \<and>
      length (Processes s) \<le> ParalleledNum c \<and>
      map fst (launched s) = [0..<NextURLNo s] \<and>
      pc_inv c pc s)"

text \<open>
  The queue and the launches at a point of a run: the queue keeps its length; the job at
  each index below the cursor has been launched once, as the \<open>k\<close>-th launch, with the
  queue entry built at startup followed by one seed as its arguments; the entries from
  the cursor on are still as they were built.
\<close>

fun queue_inv :: "config \<Rightarrow> run \<Rightarrow> bool" where
  "queue_inv c (Raised e) = False"
| "queue_inv c (At pc s) =
     (length (cmds s) = length (build_cmds c) \<and>
      NextURLNo s \<le> length (cmds s) \<and>
      length (launched s) = NextURLNo s \<and>
      (\<forall>k<NextURLNo s. \<exists>seed. launched s ! k = (k, build_cmds c ! k @ [seed]) \<and>
                                   cmds s ! k = build_cmds c ! k @ [seed]) \<and>
      (\<forall>k. NextURLNo s \<le> k \<longrightarrow> k < length (cmds s) \<longrightarrow> cmds s ! k = build_cmds c ! k))"

text \<open>What an observer sees of a run: the statement that is next, the cursor, the
  active handles and the indices of the jobs launched so far.\<close>

fun observe :: "run \<Rightarrow> (pc \<times> nat \<times> nat list \<times> nat list) option" where
  "observe (At pc s) = Some (pc, NextURLNo s, Processes s, map fst (launched s))"
| "observe (Raised e) = None"

section \<open>The output directory as the specification words it\<close>

definition is_digit :: "char \<Rightarrow> bool" where
  "is_digit ch = (ch \<in> set ''0123456789'')"

text \<open>The instance name with its trailing \<^verbatim>\<open>r<number>\<close> suffix stripped: a name that
  ends in \<^verbatim>\<open>r\<close> and one or more digits loses them, any other name is kept.\<close>

definition spec_strip_r_number :: "string \<Rightarrow> string" where
  "spec_strip_r_number name =
     (let digits_rev = takeWhile is_digit (rev name);
          rest_rev = dropWhile is_digit (rev name)
      in if digits_rev \<noteq> [] \<and> rest_rev \<noteq> [] \<and> hd rest_rev = CHR ''r''
         then rev (tl rest_rev) else name)"

definition spec_outputDir :: "config \<Rightarrow> string \<Rightarrow> string" where
  "spec_outputDir c instance = experimentFolder c @ [backslash] @ spec_strip_r_number instance"

section \<open>The seed as the specification words it\<close>


section \<open>The fix-up script for footprint files\<close>

text \<open>
  \<^verbatim>\<open>fixFootprints.py\<close> works on the data frames \<^verbatim>\<open>read_csv\<close> makes of the files. A column
  of a frame has one of the dtypes \<^verbatim>\<open>int64\<close>, \<^verbatim>\<open>float64\<close>, \<^verbatim>\<open>bool\<close> and \<^verbatim>\<open>object\<close>; a value
  is an integer, a float (named by the text \<^verbatim>\<open>str\<close> prints for it), a truth value or, in
  an \<^verbatim>\<open>object\<close> column, a string. A row gives the value under each column name. The
  content of a CSV file is the frame \<^verbatim>\<open>read_csv\<close> makes of it, and \<^verbatim>\<open>to_csv\<close> makes the
  frame written the content.
\<close>

datatype cell = IntCell int | FloatCell string | BoolCell bool | StrCell string

datatype dtype = Int64 | Float64 | Bool | Object

record dataframe =
  columns :: "string list"
  dtypes :: "string \<Rightarrow> dtype"
  rows :: "(string \<Rightarrow> cell) list"

record files_state =
  files :: "string \<rightharpoonup> dataframe"
  stdout :: "string list"

datatype io_error = FileNotFoundError

text \<open>The decimal digits of a natural number, and \<^verbatim>\<open>str\<close> of an integer.\<close>

function digits :: "nat \<Rightarrow> string" where
  "digits n = (if n < 10 then [digit_char n] else digits (n div 10) @ [digit_char (n mod 10)])"
  by pat_completeness auto
termination
  by (relation "measure id") auto

declare digits.simps [simp del]

definition str_int :: "int \<Rightarrow> string" where
  "str_int n = (if n < 0 then ''-'' @ digits (nat (- n)) else digits (nat n))"

text \<open>What the f-string of line 13 prints for a value.\<close>

fun py_str :: "cell \<Rightarrow> string" where
  "py_str (IntCell n) = str_int n"
| "py_str (FloatCell r) = r"
| "py_str (BoolCell b) = (if b then ''True'' else ''False'')"
| "py_str (StrCell s) = s"

text \<open>
  \<^verbatim>\<open>df.apply(..., axis=1)\<close> hands each row over as a series of the one dtype that holds
  the values of all columns: \<^verbatim>\<open>int64\<close> or \<^verbatim>\<open>bool\<close> when every column has it, \<^verbatim>\<open>float64\<close>
  when the columns are all numeric and not all \<^verbatim>\<open>int64\<close>, and \<^verbatim>\<open>object\<close> otherwise.
\<close>

definition values_dtype :: "dataframe \<Rightarrow> dtype" where
  "values_dtype df =
     (let ds = map (dtypes df) (columns df) in
      if list_all (\<lambda>d. d = Int64) ds then Int64
      else if list_all (\<lambda>d. d = Bool) ds then Bool
      else if list_all (\<lambda>d. d = Int64 \<or> d = Float64) ds then Float64
      else Object)"

text \<open>
  The value of a row series of dtype \<open>d\<close> that stands for a value of the frame: in a
  \<^verbatim>\<open>float64\<close> series an integer has become a float, every other value is as it is in the
  frame. The text of the float made of an integer, \<^verbatim>\<open>str(float(n))\<close>, is a parameter.
\<close>

fun as_row_value :: "(int \<Rightarrow> string) \<Rightarrow> dtype \<Rightarrow> cell \<Rightarrow> cell" where
  "as_row_value float_str Float64 (IntCell n) = FloatCell (float_str n)"
| "as_row_value float_str d v = v"

text \<open>Line 13: the row with its new \<^verbatim>\<open>Instance\<close> value, a string.\<close>

definition fix_row :: "(int \<Rightarrow> string) \<Rightarrow> dtype \<Rightarrow> (string \<Rightarrow> cell) \<Rightarrow> (string \<Rightarrow> cell)" where
  "fix_row float_str d row =
     row(''Instance'' := StrCell (py_str (as_row_value float_str d (row ''Instance'')) @ ''r'' @
                                  py_str (as_row_value float_str d (row ''NBots''))))"

text \<open>The frame after the assignment of line 13; its \<^verbatim>\<open>Instance\<close> column holds strings.\<close>

definition fix_frame :: "(int \<Rightarrow> string) \<Rightarrow> dataframe \<Rightarrow> dataframe" where
  "fix_frame float_str df =
     df\<lparr>rows := map (fix_row float_str (values_dtype df)) (rows df),
        dtypes := (dtypes df)(''Instance'' := Object)\<rparr>"

definition warning :: string where
  "warning = ''Columns 'NBots' and/or 'Instance' not found in the CSV file.''"

text \<open>The body of the loop, lines 7-18, for one file.\<close>

definition fix_file :: "(int \<Rightarrow> string) \<Rightarrow> string \<Rightarrow> files_state \<Rightarrow> io_error + files_state" where
  "fix_file float_str file st =
     (let st1 = st\<lparr>stdout := stdout st @ [''fixing: '' @ file]\<rparr> in
      case files st1 file of
        None \<Rightarrow> Inl FileNotFoundError
      | Some df \<Rightarrow>
          if ''NBots'' \<in> set (columns df) \<and> ''Instance'' \<in> set (columns df)
          then Inr (st1\<lparr>files := (files st1)(file \<mapsto> fix_frame float_str df)\<rparr>)
          else Inr (st1\<lparr>stdout := stdout st1 @ [warning]\<rparr>))"

text \<open>The loop of line 6 over the files \<^verbatim>\<open>utils.askFiles\<close> returned.\<close>

fun fix_all :: "(int \<Rightarrow> string) \<Rightarrow> string list \<Rightarrow> files_state \<Rightarrow> io_error + files_state" where
  "fix_all float_str [] st = Inr st"
| "fix_all float_str (file # fs) st =
     (case fix_file float_str file st of Inl e \<Rightarrow> Inl e | Inr st' \<Rightarrow> fix_all float_str fs st')"


section \<open>The fix-up as the specification words it\<close>



section \<open>Example configurations\<close>

text \<open>A parallelism limit of 2 and a queue of four jobs, for the instances A, B, C, D.\<close>

definition four_jobs :: config where
  "four_jobs =
     \<lparr>working_directory = ''cli'', experimentFolder = ''result'', InstanceFolder = ''layouts'',
      SettingFolder = ''settings'', controllerFolder = ''controllers'',
      Iteration = 1, ParalleledNum = 2,
      FileNames = [(''A'', ''JOS'', ''SAI''), (''B'', ''JOS'', ''SAI''),
                   (''C'', ''JOS'', ''SAI''), (''D'', ''JOS'', ''SAI'')]\<rparr>"

text \<open>Two rounds over two triples.\<close>

definition two_rounds :: config where
  "two_rounds = four_jobs\<lparr>Iteration := 2,
     FileNames := [(''Sv5r10'', ''JOS'', ''HADOD''), (''Sv5r20'', ''JOS'', ''SEQU'')]\<rparr>"

text \<open>No slot at all.\<close>

definition no_slot :: config where
  "no_slot = four_jobs\<lparr>ParalleledNum := 0\<rparr>"

text \<open>A host on UTC whose processes each exit with code 0 one minute after the epoch,
  and one on which the process of job 0 exits then and no other ever does.\<close>

definition all_exit :: env where
  "all_exit = \<lparr>exit_status = (\<lambda>k t. if 60000000 \<le> t then Some 0 else None), utcoffset = 0\<rparr>"

definition first_exits :: env where
  "first_exits =
     \<lparr>exit_status = (\<lambda>k t. if k = 0 \<and> 60000000 \<le> t then Some 1 else None), utcoffset = 0\<rparr>"

section \<open>What holds of the launcher between two calls of \<^verbatim>\<open>CheckRunning\<close>\<close>

text \<open>
  The queue is empty if there are no triples; the cursor is inside the queue; every
  active handle belongs to a job dispatched before; the jobs launched so far are those
  below the cursor, in order; each of them is still active or was polled with an exit
  code; and every recorded poll is an answer of the outside world.
\<close>

definition launcher_inv :: "config \<Rightarrow> env \<Rightarrow> state \<Rightarrow> bool" where
  "launcher_inv c env s =
     ((FileNames c \<noteq> [] \<or> cmds s = []) \<and>
      NextURLNo s \<le> length (cmds s) \<and>
      (\<forall>h\<in>set (Processes s). h < NextURLNo s) \<and>
      map fst (launched s) = [0..<NextURLNo s] \<and>
      (\<forall>k<NextURLNo s. k \<in> set (Processes s) \<or> (\<exists>code. (k, Some code) \<in> set (polled s))) \<and>
      (\<forall>(k, r)\<in>set (polled s). \<exists>t. exit_status env k t = r))"








section \<open>The shape of the job queue\<close>

lemma inner_loop_append: "inner_loop mk fs q = q @ map mk fs"
  by (induction fs arbitrary: q) auto

lemma outer_loop_concat:
  "outer_loop mk fs n q = q @ concat (replicate n (map mk fs))"
  by (induction n arbitrary: q) (auto simp: inner_loop_append)

lemma length_concat_replicate: "length (concat (replicate n xs)) = n * length xs"
  by (induction n) auto

lemma nth_concat_replicate:
  "t < length xs \<Longrightarrow> i < n \<Longrightarrow> concat (replicate n xs) ! (i * length xs + t) = xs ! t"
proof (induction n arbitrary: i)
  case 0
  then show ?case by simp
next
  case (Suc n)
  show ?case
  proof (cases i)
    case 0
    with Suc.prems show ?thesis by (simp add: nth_append)
  next
    case (Suc j)
    with Suc.prems have "j < n" by simp
    from Suc.IH [OF Suc.prems(1) this] Suc show ?thesis
      by (simp add: nth_append)
  qed
qed

lemma nth_concat_replicate_mod:
  assumes "k < n * length xs"
  shows "concat (replicate n xs) ! k = xs ! (k mod length xs)"
proof -
  from assms have pos: "0 < length xs" by (cases "length xs") auto
  have k: "k = (k div length xs) * length xs + k mod length xs" by simp
  have "k div length xs < n"
    using assms pos by (simp add: less_mult_imp_div_less)
  moreover have "k mod length xs < length xs" using pos by simp
  ultimately have "concat (replicate n xs) ! ((k div length xs) * length xs + k mod length xs)
      = xs ! (k mod length xs)"
    by (rule nth_concat_replicate [rotated])
  with k show ?thesis by simp
qed


text \<open>
  C2: the job queue built at startup has one entry for each pair of a round and a triple,
  \<^verbatim>\<open>Iteration\<close> times the number of triples in all; the entry of round \<open>i\<close> and of
  the triple at position \<open>t\<close> stands at position \<open>i * T + t\<close> (the round is the outer
  key, the position in \<^verbatim>\<open>FileNames\<close> the inner one) and is built from that triple. This
  holds for the queue of \<^verbatim>\<open>paralledExperiments.py\<close> and for that of \<^verbatim>\<open>oneExperiment.py\<close>.
\<close>

theorem job_queue_shape:
  "length (build_cmds c) = Iteration c * length (FileNames c) \<and>
   (\<forall>i<Iteration c. \<forall>t<length (FileNames c).
      build_cmds c ! (i * length (FileNames c) + t) = mk_cmd c (FileNames c ! t)) \<and>
   length (build_cmds_one c) = Iteration c * length (FileNames c) \<and>
   (\<forall>i<Iteration c. \<forall>t<length (FileNames c).
      build_cmds_one c ! (i * length (FileNames c) + t) = mk_cmd_one c (FileNames c ! t))"
proof -
  have "length (outer_loop mk fs n []) = n * length fs" for mk :: "triple \<Rightarrow> string list" and fs n
    by (simp add: outer_loop_concat length_concat_replicate)
  moreover have "outer_loop mk fs n [] ! (i * length fs + t) = mk (fs ! t)"
    if "i < n" "t < length fs" for mk :: "triple \<Rightarrow> string list" and fs n i t
    using nth_concat_replicate [of t "map mk fs" i n] that
    by (simp add: outer_loop_concat)
  ultimately show ?thesis
    by (simp add: build_cmds_def build_cmds_one_def)
qed

theorem job_queue_shape_witness:
  "length (build_cmds two_rounds) = 4 \<and>
   build_cmds two_rounds ! 3 = mk_cmd two_rounds (''Sv5r20'', ''JOS'', ''SEQU'') \<and>
   length (build_cmds_one two_rounds) = 4 \<and>
   build_cmds_one two_rounds ! 2 = mk_cmd_one two_rounds (''Sv5r10'', ''JOS'', ''HADOD'')"
proof -
  have I: "Iteration two_rounds = 2" and F: "length (FileNames two_rounds) = 2"
    and F0: "FileNames two_rounds ! 0 = (''Sv5r10'', ''JOS'', ''HADOD'')"
    and F1: "FileNames two_rounds ! 1 = (''Sv5r20'', ''JOS'', ''SEQU'')"
    by (simp_all add: two_rounds_def four_jobs_def)
  note shape = job_queue_shape [of two_rounds, unfolded I F]
  from shape have a: "length (build_cmds two_rounds) = 4"
    and b: "length (build_cmds_one two_rounds) = 4" by simp_all
  from shape have "\<forall>i<2. \<forall>t<2. build_cmds two_rounds ! (i * 2 + t) = mk_cmd two_rounds (FileNames two_rounds ! t)"
    by blast
  then have "build_cmds two_rounds ! (1 * 2 + 1) = mk_cmd two_rounds (FileNames two_rounds ! 1)"
    by (metis one_less_numeral_iff semiring_norm(76))
  then have c: "build_cmds two_rounds ! 3 = mk_cmd two_rounds (''Sv5r20'', ''JOS'', ''SEQU'')"
    using F1 by simp
  from shape have "\<forall>i<2. \<forall>t<2. build_cmds_one two_rounds ! (i * 2 + t) = mk_cmd_one two_rounds (FileNames two_rounds ! t)"
    by blast
  then have "build_cmds_one two_rounds ! (1 * 2 + 0) = mk_cmd_one two_rounds (FileNames two_rounds ! 0)"
    by (metis one_less_numeral_iff semiring_norm(76) zero_less_numeral)
  then have d: "build_cmds_one two_rounds ! 2 = mk_cmd_one two_rounds (''Sv5r10'', ''JOS'', ''HADOD'')"
    using F0 by simp
  from a b c d show ?thesis by simp
qed

section \<open>The output directory\<close>

lemma rsplit1_nonempty: "rsplit1 sep s \<noteq> []"
  by (simp add: rsplit1_def Let_def)

lemma rsplit1_cut:
  assumes "sep \<notin> set rest"
  shows "rsplit1 sep (base @ sep # rest) = [base, rest]"
proof -
  have r: "rev (base @ sep # rest) = rev rest @ sep # rev base" by simp
  have t: "takeWhile (\<lambda>ch. ch \<noteq> sep) (rev rest @ sep # rev base) = rev rest"
    using assms by (subst takeWhile_append2) auto
  have d: "dropWhile (\<lambda>ch. ch \<noteq> sep) (rev rest @ sep # rev base) = sep # rev base"
    using assms by (subst dropWhile_append2) auto
  show ?thesis unfolding rsplit1_def r t d by (simp add: Let_def)
qed

lemma rsplit1_none:
  assumes "sep \<notin> set s"
  shows "rsplit1 sep s = [s]"
proof -
  have "dropWhile (\<lambda>ch. ch \<noteq> sep) (rev s) = []" using assms by auto
  then show ?thesis by (simp add: rsplit1_def Let_def)
qed

lemma is_digit_not_r: "is_digit ch \<Longrightarrow> ch \<noteq> CHR ''r''"
  by (auto simp: is_digit_def)

lemma spec_strip_cut:
  assumes "ds \<noteq> []" "\<forall>ch\<in>set ds. is_digit ch"
  shows "spec_strip_r_number (base @ CHR ''r'' # ds) = base"
proof -
  have r: "rev (base @ CHR ''r'' # ds) = rev ds @ CHR ''r'' # rev base" by simp
  have nd: "\<not> is_digit CHR ''r''" by (simp add: is_digit_def)
  have t: "takeWhile is_digit (rev ds @ CHR ''r'' # rev base) = rev ds"
    using assms nd by (subst takeWhile_append2) auto
  have d: "dropWhile is_digit (rev ds @ CHR ''r'' # rev base) = CHR ''r'' # rev base"
    using assms nd by (subst dropWhile_append2) auto
  show ?thesis unfolding spec_strip_r_number_def r t d using assms by (simp add: Let_def)
qed

lemma outputDir_cut_at_last_r:
  "CHR ''r'' \<notin> set rest \<Longrightarrow>
     outputDir c (base @ CHR ''r'' # rest) = experimentFolder c @ [backslash] @ base"
  "CHR ''r'' \<notin> set name \<Longrightarrow> outputDir c name = experimentFolder c @ [backslash] @ name"
  by (simp_all add: outputDir_def rsplit1_cut rsplit1_none)

text \<open>
  C8, as amended: for an instance name that ends in \<^verbatim>\<open>r<number>\<close> (an \<^verbatim>\<open>r\<close> followed by
  one or more digits up to the end), the output directory of the job is the experiment
  root, a backslash and the name without that suffix, which is the directory the
  specification words; so the name \<^verbatim>\<open>Sv5r60\<close> gives the suffix \<^verbatim>\<open>Sv5\<close>, and all bot-count
  variants of one base instance share a directory. In general the name is cut at its
  last \<^verbatim>\<open>r\<close>, whatever follows it, and a name without \<^verbatim>\<open>r\<close> is kept whole.
\<close>

theorem outputDir_strips_r_number:
  "(ds \<noteq> [] \<and> (\<forall>ch\<in>set ds. is_digit ch) \<longrightarrow>
      outputDir c (base @ CHR ''r'' # ds) = experimentFolder c @ [backslash] @ base \<and>
      outputDir c (base @ CHR ''r'' # ds) = spec_outputDir c (base @ CHR ''r'' # ds)) \<and>
   (CHR ''r'' \<notin> set rest \<longrightarrow>
      outputDir c (base @ CHR ''r'' # rest) = experimentFolder c @ [backslash] @ base) \<and>
   (CHR ''r'' \<notin> set name \<longrightarrow> outputDir c name = experimentFolder c @ [backslash] @ name)"
proof -
  have "outputDir c (base @ CHR ''r'' # ds) = experimentFolder c @ [backslash] @ base \<and>
      outputDir c (base @ CHR ''r'' # ds) = spec_outputDir c (base @ CHR ''r'' # ds)"
    if d: "ds \<noteq> []" "\<forall>ch\<in>set ds. is_digit ch"
  proof -
    from d have "CHR ''r'' \<notin> set ds" by (auto dest: is_digit_not_r)
    then have "outputDir c (base @ CHR ''r'' # ds) = experimentFolder c @ [backslash] @ base"
      by (rule outputDir_cut_at_last_r)
    then show ?thesis
      using d by (simp add: spec_outputDir_def spec_strip_cut)
  qed
  then show ?thesis
    using outputDir_cut_at_last_r(1) [where rest = rest and c = c and base = base]
      outputDir_cut_at_last_r(2) [where name = name and c = c]
    by blast
qed

theorem outputDir_strips_r_number_witness:
  "outputDir four_jobs ''Sv5r60'' = experimentFolder four_jobs @ [backslash] @ ''Sv5'' \<and>
   outputDir four_jobs ''Sv5r60'' = spec_outputDir four_jobs ''Sv5r60'' \<and>
   outputDir four_jobs ''Sv5r10'' = outputDir four_jobs ''Sv5r60'' \<and>
   outputDir four_jobs ''Square'' = experimentFolder four_jobs @ [backslash] @ ''Squa'' \<and>
   outputDir four_jobs ''PPI3v1'' = experimentFolder four_jobs @ [backslash] @ ''PPI3v1''"
proof -
  have d: "''60'' \<noteq> [] \<and> (\<forall>ch\<in>set ''60''. is_digit ch)"
    "''10'' \<noteq> [] \<and> (\<forall>ch\<in>set ''10''. is_digit ch)"
    by (simp_all add: is_digit_def)
  have n: "CHR ''r'' \<notin> set ''e''" "CHR ''r'' \<notin> set ''PPI3v1''" by simp_all
  note T = outputDir_strips_r_number
  have a: "outputDir four_jobs (''Sv5'' @ CHR ''r'' # ''60'') =
             experimentFolder four_jobs @ [backslash] @ ''Sv5'' \<and>
           outputDir four_jobs (''Sv5'' @ CHR ''r'' # ''60'') =
             spec_outputDir four_jobs (''Sv5'' @ CHR ''r'' # ''60'')"
    by (rule T [where ds = "''60''", THEN conjunct1, THEN mp, OF d(1)])
  have b: "outputDir four_jobs (''Sv5'' @ CHR ''r'' # ''10'') =
             experimentFolder four_jobs @ [backslash] @ ''Sv5'' \<and>
           outputDir four_jobs (''Sv5'' @ CHR ''r'' # ''10'') =
             spec_outputDir four_jobs (''Sv5'' @ CHR ''r'' # ''10'')"
    by (rule T [where ds = "''10''", THEN conjunct1, THEN mp, OF d(2)])
  have c: "outputDir four_jobs (''Squa'' @ CHR ''r'' # ''e'') =
             experimentFolder four_jobs @ [backslash] @ ''Squa''"
    by (rule T [where rest = "''e''", THEN conjunct2, THEN conjunct1, THEN mp, OF n(1)])
  have p: "outputDir four_jobs ''PPI3v1'' = experimentFolder four_jobs @ [backslash] @ ''PPI3v1''"
    by (rule T [where name = "''PPI3v1''", THEN conjunct2, THEN conjunct2, THEN mp, OF n(2)])
  have e: "''Sv5'' @ CHR ''r'' # ''60'' = ''Sv5r60''" "''Sv5'' @ CHR ''r'' # ''10'' = ''Sv5r10''"
    "''Squa'' @ CHR ''r'' # ''e'' = ''Square''"
    by simp_all
  from a b c p show ?thesis unfolding e by metis
qed

text \<open>
  C8 as it stands, for every instance name, fails on a name whose last \<^verbatim>\<open>r\<close>
  does not start a trailing number: \<^verbatim>\<open>"Square".rsplit('r', 1)[0]\<close> is \<^verbatim>\<open>"Squa"\<close>, while the
  name has no \<^verbatim>\<open>r<number>\<close> suffix to strip.
\<close>

theorem outputDir_Square_counterexample:
  "outputDir four_jobs ''Square'' = experimentFolder four_jobs @ [backslash] @ ''Squa'' \<and>
   spec_outputDir four_jobs ''Square'' = experimentFolder four_jobs @ [backslash] @ ''Square'' \<and>
   outputDir four_jobs ''Square'' \<noteq> spec_outputDir four_jobs ''Square''"
  by (simp add: outputDir_def spec_outputDir_def rsplit1_def spec_strip_r_number_def is_digit_def Let_def)


section \<open>Dispatching one job\<close>

lemma StartNew_ok:
  assumes "NextURLNo s < length (cmds s)" and "FileNames c \<noteq> []"
  shows "StartNew c env s = Inr
     (s\<lparr>cmds := (cmds s)[NextURLNo s := cmds s ! NextURLNo s @ [dateTime env (clock s)]],
        launched := launched s @ [(NextURLNo s, cmds s ! NextURLNo s @ [dateTime env (clock s)])],
        printed := printed s @ [(NextURLNo s + 1, length (cmds s),
                                 FileNames c ! (NextURLNo s mod length (FileNames c)))],
        NextURLNo := NextURLNo s + 1,
        Processes := Processes s @ [NextURLNo s]\<rparr>)"
  using assms by (simp add: StartNew_def Let_def)

lemma StartNew_Inr:
  assumes "StartNew c env s = Inr s'"
  shows "NextURLNo s < length (cmds s) \<and> FileNames c \<noteq> [] \<and>
     s' = s\<lparr>cmds := (cmds s)[NextURLNo s := cmds s ! NextURLNo s @ [dateTime env (clock s)]],
        launched := launched s @ [(NextURLNo s, cmds s ! NextURLNo s @ [dateTime env (clock s)])],
        printed := printed s @ [(NextURLNo s + 1, length (cmds s),
                                 FileNames c ! (NextURLNo s mod length (FileNames c)))],
        NextURLNo := NextURLNo s + 1,
        Processes := Processes s @ [NextURLNo s]\<rparr>"
  using assms by (auto simp: StartNew_def Let_def split: if_splits)

lemma build_cmds_nth:
  assumes "k < length (build_cmds c)"
  shows "build_cmds c ! k = mk_cmd c (FileNames c ! (k mod length (FileNames c)))"
proof -
  from assms have k: "k < Iteration c * length (map (mk_cmd c) (FileNames c))"
    by (simp add: build_cmds_def outer_loop_concat length_concat_replicate)
  then have pos: "0 < length (FileNames c)" by (cases "FileNames c") auto
  from nth_concat_replicate_mod [OF k]
  show ?thesis using pos by (simp add: build_cmds_def outer_loop_concat)
qed

lemma build_cmds_FileNames: "build_cmds c \<noteq> [] \<Longrightarrow> FileNames c \<noteq> []"
  by (auto simp: build_cmds_def outer_loop_concat)

text \<open>
  C10: when the job with index \<open>k\<close> is dispatched, the progress message of line 60
  names the triple \<^verbatim>\<open>FileNames[k % len(FileNames)]\<close>, and that triple is the one the queue
  entry \<^verbatim>\<open>cmds[k]\<close> was built from, for every index \<open>k\<close> of the queue.
\<close>

theorem progress_message_names_triple:
  assumes "k < length (build_cmds c)" and "NextURLNo s = k" and "length (cmds s) = length (build_cmds c)"
  shows "\<exists>s'. StartNew c env s = Inr s' \<and>
     printed s' = printed s @
       [(k + 1, length (build_cmds c), FileNames c ! (k mod length (FileNames c)))] \<and>
     build_cmds c ! k = mk_cmd c (FileNames c ! (k mod length (FileNames c)))"
proof -
  from assms(1) have "build_cmds c \<noteq> []" by auto
  then have "FileNames c \<noteq> []" by (rule build_cmds_FileNames)
  with assms show ?thesis
    by (simp add: StartNew_ok build_cmds_nth)
qed

section \<open>The seed\<close>




lemma length_fmt2 [simp]: "length (fmt2 n) = 2"
  by (simp add: fmt2_def)











theorem progress_message_names_triple_witness:
  "1 < length (build_cmds four_jobs) \<and>
   (\<exists>s'. StartNew four_jobs all_exit ((init four_jobs 0)\<lparr>NextURLNo := 1\<rparr>) = Inr s' \<and>
      printed s' = [(2, 4, (''B'', ''JOS'', ''SAI''))]) \<and>
   build_cmds four_jobs ! 1 = mk_cmd four_jobs (''B'', ''JOS'', ''SAI'')"
proof -
  have h1: "1 < length (build_cmds four_jobs)" by code_simp
  have l: "length (build_cmds four_jobs) = 4" by code_simp
  have f: "FileNames four_jobs ! (1 mod length (FileNames four_jobs)) = (''B'', ''JOS'', ''SAI'')"
    by (simp add: four_jobs_def)
  have h2: "NextURLNo ((init four_jobs 0)\<lparr>NextURLNo := 1\<rparr>) = 1" by simp
  have h3: "length (cmds ((init four_jobs 0)\<lparr>NextURLNo := 1\<rparr>)) = length (build_cmds four_jobs)"
    by (simp add: init_def)
  have p: "printed ((init four_jobs 0)\<lparr>NextURLNo := 1\<rparr>) = []" by (simp add: init_def)
  from progress_message_names_triple [OF h1 h2 h3, of all_exit]
  obtain s' where a: "StartNew four_jobs all_exit ((init four_jobs 0)\<lparr>NextURLNo := 1\<rparr>) = Inr s'"
    and b: "printed s' = [] @ [(1 + 1, 4, (''B'', ''JOS'', ''SAI''))]"
    and c: "build_cmds four_jobs ! 1 = mk_cmd four_jobs (''B'', ''JOS'', ''SAI'')"
    unfolding f l p by blast
  from b have "printed s' = [(2, 4, (''B'', ''JOS'', ''SAI''))]" by simp
  with a c h1 show ?thesis by blast
qed


section \<open>One pass over the active processes\<close>

lemma py_range_Suc: "py_range (- int (Suc n)) 0 = (- int (Suc n)) # py_range (- int n) 0"
  by (simp add: py_range_def upto_rec1)

lemma py_range_0: "py_range 0 0 = []"
  by (simp add: py_range_def)

lemma py_index_from_end:
  "py_index (pre @ x # xs) (- int (Suc (length xs))) = Inr (length pre)"
  by (simp add: py_index_def)

lemma reap_filter:
  "reap env (py_range (- int (length xs)) 0) (s\<lparr>Processes := pre @ xs\<rparr>) =
     Inr (s\<lparr>Processes := pre @ filter (\<lambda>h. exit_status env h (clock s) = None) xs,
            polled := polled s @ map (\<lambda>h. (h, exit_status env h (clock s))) xs\<rparr>)"
proof (induction xs arbitrary: pre s)
  case Nil
  then show ?case by (simp add: py_range_0)
next
  case (Cons x xs)
  let ?s1 = "s\<lparr>polled := polled s @ [(x, exit_status env x (clock s))]\<rparr>"
  have p: "poll_at env (- int (Suc (length xs))) (s\<lparr>Processes := pre @ x # xs\<rparr>) =
      Inr (exit_status env x (clock s) \<noteq> None, ?s1\<lparr>Processes := pre @ x # xs\<rparr>)"
    by (simp add: poll_at_def py_index_from_end Let_def del: of_nat_Suc)
  have d: "del_at (- int (Suc (length xs))) (?s1\<lparr>Processes := pre @ x # xs\<rparr>) =
      Inr (?s1\<lparr>Processes := pre @ xs\<rparr>)"
    by (simp add: del_at_def py_index_from_end del: of_nat_Suc)
  show ?case
  proof (cases "exit_status env x (clock s) = None")
    case True
    have "reap env (py_range (- int (length (x # xs))) 0) (s\<lparr>Processes := pre @ x # xs\<rparr>) =
        reap env (py_range (- int (length xs)) 0) (?s1\<lparr>Processes := (pre @ [x]) @ xs\<rparr>)"
      using True by (simp add: py_range_Suc p del: of_nat_Suc)
    also have "\<dots> = Inr (?s1\<lparr>Processes := (pre @ [x]) @ filter (\<lambda>h. exit_status env h (clock ?s1) = None) xs,
            polled := polled ?s1 @ map (\<lambda>h. (h, exit_status env h (clock ?s1))) xs\<rparr>)"
      by (rule Cons.IH)
    finally show ?thesis using True by simp
  next
    case False
    have "reap env (py_range (- int (length (x # xs))) 0) (s\<lparr>Processes := pre @ x # xs\<rparr>) =
        reap env (py_range (- int (length xs)) 0) (?s1\<lparr>Processes := pre @ xs\<rparr>)"
      using False by (simp add: py_range_Suc p d del: of_nat_Suc)
    also have "\<dots> = Inr (?s1\<lparr>Processes := pre @ filter (\<lambda>h. exit_status env h (clock ?s1) = None) xs,
            polled := polled ?s1 @ map (\<lambda>h. (h, exit_status env h (clock ?s1))) xs\<rparr>)"
      by (rule Cons.IH)
    finally show ?thesis using False by simp
  qed
qed

lemma reap_pass:
  "reap env (py_range (- int (length (Processes s))) 0) s =
     Inr (s\<lparr>Processes := filter (\<lambda>h. exit_status env h (clock s) = None) (Processes s),
            polled := polled s @ map (\<lambda>h. (h, exit_status env h (clock s))) (Processes s)\<rparr>)"
  using reap_filter [where xs = "Processes s" and s = s and pre = "[]"] by simp


section \<open>Filling the free slots\<close>

lemma refill_stop:
  "\<not> (length (Processes s) < ParalleledNum c \<and> NextURLNo s < length (cmds s)) \<Longrightarrow>
     refill c env s = Inr s"
  by (subst refill.simps) auto

lemma refill_go:
  "length (Processes s) < ParalleledNum c \<Longrightarrow> NextURLNo s < length (cmds s) \<Longrightarrow>
     refill c env s =
       (case StartNew c env (sleep 1 s) of Inl e \<Rightarrow> Inl e | Inr s' \<Rightarrow> refill c env s')"
  by (subst refill.simps) simp

lemma refill_result:
  assumes "FileNames c \<noteq> [] \<or> length (cmds s) \<le> NextURLNo s"
  shows "\<exists>s'. refill c env s = Inr s' \<and>
      length (cmds s') = length (cmds s) \<and>
      NextURLNo s \<le> NextURLNo s' \<and>
      (NextURLNo s < NextURLNo s' \<longrightarrow> NextURLNo s' \<le> length (cmds s)) \<and>
      Processes s' = Processes s @ [NextURLNo s..<NextURLNo s'] \<and>
      map fst (launched s') = map fst (launched s) @ [NextURLNo s..<NextURLNo s'] \<and>
      polled s' = polled s \<and>
      clock s' = clock s + int (NextURLNo s' - NextURLNo s) * 1000000 \<and>
      (\<forall>k\<ge>NextURLNo s'. cmds s' ! k = cmds s ! k) \<and>
      \<not> (length (Processes s') < ParalleledNum c \<and> NextURLNo s' < length (cmds s')) \<and>
      (length (Processes s) \<le> ParalleledNum c \<longrightarrow> length (Processes s') \<le> ParalleledNum c)"
  using assms
proof (induction c env s rule: refill.induct)
  case (1 c env s)
  show ?case
  proof (cases "length (Processes s) < ParalleledNum c \<and> NextURLNo s < length (cmds s)")
    case False
    then have "refill c env s = Inr s" by (rule refill_stop)
    with False show ?thesis by auto
  next
    case True
    with "1.prems" have F: "FileNames c \<noteq> []" by auto
    from True have n: "NextURLNo (sleep 1 s) < length (cmds (sleep 1 s))"
      by (simp add: sleep_def)
    define s1 where "s1 = (sleep 1 s)\<lparr>cmds := (cmds (sleep 1 s))[NextURLNo (sleep 1 s) :=
          cmds (sleep 1 s) ! NextURLNo (sleep 1 s) @ [dateTime env (clock (sleep 1 s))]],
        launched := launched (sleep 1 s) @ [(NextURLNo (sleep 1 s),
          cmds (sleep 1 s) ! NextURLNo (sleep 1 s) @ [dateTime env (clock (sleep 1 s))])],
        printed := printed (sleep 1 s) @ [(NextURLNo (sleep 1 s) + 1, length (cmds (sleep 1 s)),
          FileNames c ! (NextURLNo (sleep 1 s) mod length (FileNames c)))],
        NextURLNo := NextURLNo (sleep 1 s) + 1,
        Processes := Processes (sleep 1 s) @ [NextURLNo (sleep 1 s)]\<rparr>"
    have st: "StartNew c env (sleep 1 s) = Inr s1"
      unfolding s1_def by (rule StartNew_ok [OF n F])
    have s1: "cmds s1 = (cmds s)[NextURLNo s := cmds s ! NextURLNo s @ [dateTime env (clock s + 1000000)]]"
      "NextURLNo s1 = Suc (NextURLNo s)" "Processes s1 = Processes s @ [NextURLNo s]"
      "map fst (launched s1) = map fst (launched s) @ [NextURLNo s]" "polled s1 = polled s"
      "clock s1 = clock s + 1000000"
      by (simp_all add: s1_def sleep_def)
    from F have "FileNames c \<noteq> [] \<or> length (cmds s1) \<le> NextURLNo s1" by simp
    from "1.IH" [OF True st this] obtain s' where r: "refill c env s1 = Inr s'"
      and a: "length (cmds s') = length (cmds s1)" "NextURLNo s1 \<le> NextURLNo s'"
        "NextURLNo s1 < NextURLNo s' \<longrightarrow> NextURLNo s' \<le> length (cmds s1)"
        "Processes s' = Processes s1 @ [NextURLNo s1..<NextURLNo s']"
        "map fst (launched s') = map fst (launched s1) @ [NextURLNo s1..<NextURLNo s']"
        "polled s' = polled s1"
        "clock s' = clock s1 + int (NextURLNo s' - NextURLNo s1) * 1000000"
        "\<forall>k\<ge>NextURLNo s'. cmds s' ! k = cmds s1 ! k"
        "\<not> (length (Processes s') < ParalleledNum c \<and> NextURLNo s' < length (cmds s'))"
        "length (Processes s1) \<le> ParalleledNum c \<longrightarrow> length (Processes s') \<le> ParalleledNum c"
      by (elim exE conjE) 
    have rs: "refill c env s = Inr s'"
      using True st r by (simp add: refill_go)
    have up: "[NextURLNo s..<NextURLNo s'] = NextURLNo s # [Suc (NextURLNo s)..<NextURLNo s']"
      using a(2) s1(2) by (simp add: upt_conv_Cons)
    have b1: "length (cmds s') = length (cmds s)" using a(1) s1(1) by simp
    have b2: "NextURLNo s \<le> NextURLNo s'" using a(2) s1(2) by simp
    have b3: "NextURLNo s < NextURLNo s' \<longrightarrow> NextURLNo s' \<le> length (cmds s)"
      using a(2,3) s1(1,2) True by (cases "NextURLNo s1 < NextURLNo s'") auto
    have b4: "Processes s' = Processes s @ [NextURLNo s..<NextURLNo s']"
      using a(4) s1(2,3) up by simp
    have b5: "map fst (launched s') = map fst (launched s) @ [NextURLNo s..<NextURLNo s']"
      using a(5) s1(2,4) up by simp
    have b6: "polled s' = polled s" using a(6) s1(5) by simp
    have b7: "clock s' = clock s + int (NextURLNo s' - NextURLNo s) * 1000000"
      using a(2,7) s1(2,6) by (simp add: Suc_diff_le algebra_simps)
    have b8: "\<forall>k\<ge>NextURLNo s'. cmds s' ! k = cmds s ! k"
      using a(2,8) s1(1,2) by auto
    have b10: "length (Processes s) \<le> ParalleledNum c \<longrightarrow> length (Processes s') \<le> ParalleledNum c"
      using a(10) s1(3) True by simp
    show ?thesis
      by (intro exI [of _ s'] conjI rs b1 b2 b3 b4 b5 b6 b7 b8 a(9) b10)
  qed
qed


lemma CheckRunning_result:
  assumes "FileNames c \<noteq> [] \<or> length (cmds s) \<le> NextURLNo s"
  shows "\<exists>s'. CheckRunning c env s = Inr s' \<and>
      length (cmds s') = length (cmds s) \<and>
      NextURLNo s \<le> NextURLNo s' \<and>
      (NextURLNo s < NextURLNo s' \<longrightarrow> NextURLNo s' \<le> length (cmds s)) \<and>
      Processes s' = filter (\<lambda>h. exit_status env h (clock s) = None) (Processes s) @
                       [NextURLNo s..<NextURLNo s'] \<and>
      map fst (launched s') = map fst (launched s) @ [NextURLNo s..<NextURLNo s'] \<and>
      polled s' = polled s @ map (\<lambda>h. (h, exit_status env h (clock s))) (Processes s) \<and>
      clock s' = clock s + int (NextURLNo s' - NextURLNo s) * 1000000 \<and>
      (\<forall>k\<ge>NextURLNo s'. cmds s' ! k = cmds s ! k) \<and>
      \<not> (length (Processes s') < ParalleledNum c \<and> NextURLNo s' < length (cmds s')) \<and>
      (length (Processes s) \<le> ParalleledNum c \<longrightarrow> length (Processes s') \<le> ParalleledNum c)"
proof -
  define r where "r = s\<lparr>Processes := filter (\<lambda>h. exit_status env h (clock s) = None) (Processes s),
            polled := polled s @ map (\<lambda>h. (h, exit_status env h (clock s))) (Processes s)\<rparr>"
  have reap: "reap env (py_range (- int (length (Processes s))) 0) s = Inr r"
    unfolding r_def by (rule reap_pass)
  have r: "cmds r = cmds s" "NextURLNo r = NextURLNo s" "clock r = clock s" "launched r = launched s"
    "Processes r = filter (\<lambda>h. exit_status env h (clock s) = None) (Processes s)"
    "polled r = polled s @ map (\<lambda>h. (h, exit_status env h (clock s))) (Processes s)"
    by (simp_all add: r_def)
  from assms have "FileNames c \<noteq> [] \<or> length (cmds r) \<le> NextURLNo r" by (simp add: r)
  from refill_result [OF this, of env] obtain s' where f: "refill c env r = Inr s'"
    and a: "length (cmds s') = length (cmds r)" "NextURLNo r \<le> NextURLNo s'"
      "NextURLNo r < NextURLNo s' \<longrightarrow> NextURLNo s' \<le> length (cmds r)"
      "Processes s' = Processes r @ [NextURLNo r..<NextURLNo s']"
      "map fst (launched s') = map fst (launched r) @ [NextURLNo r..<NextURLNo s']"
      "polled s' = polled r"
      "clock s' = clock r + int (NextURLNo s' - NextURLNo r) * 1000000"
      "\<forall>k\<ge>NextURLNo s'. cmds s' ! k = cmds r ! k"
      "\<not> (length (Processes s') < ParalleledNum c \<and> NextURLNo s' < length (cmds s'))"
      "length (Processes r) \<le> ParalleledNum c \<longrightarrow> length (Processes s') \<le> ParalleledNum c"
    by (elim exE conjE)
  have c: "CheckRunning c env s = Inr s'"
    by (simp add: CheckRunning_def reap f)
  have le: "length (Processes r) \<le> length (Processes s)" by (simp add: r)
  have b10: "length (Processes s) \<le> ParalleledNum c \<longrightarrow> length (Processes s') \<le> ParalleledNum c"
    using a(10) le by simp
  show ?thesis
    using a(1-9) unfolding r
    by (intro exI [of _ s'] conjI c b10)
qed


section \<open>The invariant of the launcher\<close>

lemma launcher_inv_init: "launcher_inv c env (init c t0)"
  by (auto simp: launcher_inv_def init_def build_cmds_def outer_loop_concat)

lemma CheckRunning_inv:
  assumes inv: "launcher_inv c env s"
  shows "\<exists>s'. CheckRunning c env s = Inr s' \<and> launcher_inv c env s' \<and>
      length (cmds s') = length (cmds s) \<and>
      NextURLNo s \<le> NextURLNo s' \<and>
      Processes s' = filter (\<lambda>h. exit_status env h (clock s) = None) (Processes s) @
                       [NextURLNo s..<NextURLNo s'] \<and>
      clock s \<le> clock s' \<and>
      \<not> (length (Processes s') < ParalleledNum c \<and> NextURLNo s' < length (cmds s'))"
proof -
  from inv have i: "FileNames c \<noteq> [] \<or> cmds s = []" "NextURLNo s \<le> length (cmds s)"
    "\<forall>h\<in>set (Processes s). h < NextURLNo s" "map fst (launched s) = [0..<NextURLNo s]"
    "\<forall>k<NextURLNo s. k \<in> set (Processes s) \<or> (\<exists>code. (k, Some code) \<in> set (polled s))"
    "\<forall>(k, r)\<in>set (polled s). \<exists>t. exit_status env k t = r"
    by (simp_all add: launcher_inv_def)
  from i(1) have "FileNames c \<noteq> [] \<or> length (cmds s) \<le> NextURLNo s" by auto
  from CheckRunning_result [OF this, of env] obtain s' where c: "CheckRunning c env s = Inr s'"
    and a: "length (cmds s') = length (cmds s)" "NextURLNo s \<le> NextURLNo s'"
      "NextURLNo s < NextURLNo s' \<longrightarrow> NextURLNo s' \<le> length (cmds s)"
      "Processes s' = filter (\<lambda>h. exit_status env h (clock s) = None) (Processes s) @
                       [NextURLNo s..<NextURLNo s']"
      "map fst (launched s') = map fst (launched s) @ [NextURLNo s..<NextURLNo s']"
      "polled s' = polled s @ map (\<lambda>h. (h, exit_status env h (clock s))) (Processes s)"
      "clock s' = clock s + int (NextURLNo s' - NextURLNo s) * 1000000"
      "\<not> (length (Processes s') < ParalleledNum c \<and> NextURLNo s' < length (cmds s'))"
    by (elim exE conjE)
  have j1: "FileNames c \<noteq> [] \<or> cmds s' = []" using i(1) a(1) by auto
  have j2: "NextURLNo s' \<le> length (cmds s')"
    using i(2) a(1,2,3) by (cases "NextURLNo s < NextURLNo s'") auto
  have j3: "\<forall>h\<in>set (Processes s'). h < NextURLNo s'"
    using i(3) a(2) by (auto simp: a(4))
  have "[0..<NextURLNo s'] = [0..<NextURLNo s] @ [NextURLNo s..<NextURLNo s']"
    using a(2) upt_add_eq_append [of 0 "NextURLNo s" "NextURLNo s' - NextURLNo s"] by simp
  then have j4: "map fst (launched s') = [0..<NextURLNo s']" using i(4) a(5) by simp
  have j5: "\<forall>k<NextURLNo s'. k \<in> set (Processes s') \<or> (\<exists>code. (k, Some code) \<in> set (polled s'))"
  proof (intro allI impI)
    fix k assume k: "k < NextURLNo s'"
    show "k \<in> set (Processes s') \<or> (\<exists>code. (k, Some code) \<in> set (polled s'))"
    proof (cases "k < NextURLNo s")
      case False
      with k show ?thesis by (simp add: a(4))
    next
      case True
      with i(5) consider "k \<in> set (Processes s)" | code where "(k, Some code) \<in> set (polled s)"
        by blast
      then show ?thesis
      proof cases
        case 1
        show ?thesis
        proof (cases "exit_status env k (clock s)")
          case None
          with 1 show ?thesis by (simp add: a(4))
        next
          case (Some code)
          with 1 have "(k, Some code) \<in> set (polled s')" by (auto simp: a(6) image_iff)
          then show ?thesis by blast
        qed
      next
        case 2
        then show ?thesis by (auto simp: a(6))
      qed
    qed
  qed
  have j6: "\<forall>(k, r)\<in>set (polled s'). \<exists>t. exit_status env k t = r"
    using i(6) by (auto simp: a(6))
  have inv': "launcher_inv c env s'"
    unfolding launcher_inv_def by (intro conjI j1 j2 j3 j4 j5 j6)
  have cl: "clock s \<le> clock s'" by (simp add: a(7))
  show ?thesis
    by (intro exI [of _ s'] conjI c inv' a(1) a(2) a(4) cl a(8))
qed


section \<open>The driving loop\<close>

lemma driving_loop_stop: "Processes s = [] \<Longrightarrow> driving_loop c env s = Some (Inr s)"
  by (subst driving_loop.simps) simp

lemma driving_loop_go:
  "Processes s \<noteq> [] \<Longrightarrow> CheckRunning c env (sleep 60 s) = Inr s1 \<Longrightarrow>
     driving_loop c env s = driving_loop c env s1"
  by (subst driving_loop.simps) simp

lemma launcher_inv_sleep: "launcher_inv c env (sleep d s) = launcher_inv c env s"
  by (simp add: launcher_inv_def sleep_def)

lemma driving_loop_terminates:
  assumes "launcher_inv c env s"
    and "\<not> (length (Processes s) < ParalleledNum c \<and> NextURLNo s < length (cmds s))"
    and "\<forall>k<length (cmds s). \<forall>t\<ge>T. exit_status env k t \<noteq> None"
  shows "\<exists>s'. driving_loop c env s = Some (Inr s')"
  using assms
proof (induction "nat (T - clock s) + (length (cmds s) - NextURLNo s) + length (Processes s)"
    arbitrary: s rule: less_induct)
  case less
  show ?case
  proof (cases "Processes s = []")
    case True
    then show ?thesis by (simp add: driving_loop_stop)
  next
    case False
    let ?z = "sleep 60 s"
    have z: "cmds ?z = cmds s" "NextURLNo ?z = NextURLNo s" "Processes ?z = Processes s"
      "clock ?z = clock s + 60000000"
      by (simp_all add: sleep_def)
    from less.prems(1) have "launcher_inv c env ?z" by (simp add: launcher_inv_sleep)
    from CheckRunning_inv [OF this] obtain s1 where c: "CheckRunning c env ?z = Inr s1"
      and inv1: "launcher_inv c env s1" and a: "length (cmds s1) = length (cmds s)"
        "NextURLNo s \<le> NextURLNo s1"
        "Processes s1 = filter (\<lambda>h. exit_status env h (clock s + 60000000) = None) (Processes s) @
                       [NextURLNo s..<NextURLNo s1]"
        "clock s + 60000000 \<le> clock s1"
      and post1: "\<not> (length (Processes s1) < ParalleledNum c \<and> NextURLNo s1 < length (cmds s1))"
      unfolding z by (elim exE conjE)
    from inv1 have n1: "NextURLNo s1 \<le> length (cmds s1)" by (simp add: launcher_inv_def)
    from less.prems(1) have hs: "\<forall>h\<in>set (Processes s). h < length (cmds s)"
      by (auto simp: launcher_inv_def)
    let ?f = "filter (\<lambda>h. exit_status env h (clock s + 60000000) = None) (Processes s)"
    have rem: "(length (cmds s1) - NextURLNo s1) + length (Processes s1) =
        (length (cmds s) - NextURLNo s) + length ?f"
      using a(1,2) n1 by (simp add: a(3))
    have fl: "length ?f \<le> length (Processes s)" by simp
    have dec: "nat (T - clock s1) + (length (cmds s1) - NextURLNo s1) + length (Processes s1)
        < nat (T - clock s) + (length (cmds s) - NextURLNo s) + length (Processes s)"
    proof (cases "T \<le> clock s + 60000000")
      case True
      with hs less.prems(3) have "\<forall>h\<in>set (Processes s). exit_status env h (clock s + 60000000) \<noteq> None"
        by blast
      then have "length ?f = 0" by (simp add: filter_empty_conv)
      moreover from \<open>Processes s \<noteq> []\<close> have "0 < length (Processes s)" by simp
      moreover have "nat (T - clock s1) \<le> nat (T - clock s)" using a(4) by simp
      ultimately show ?thesis using rem by linarith
    next
      case False
      then have "nat (T - clock s1) < nat (T - clock s)" using a(4) by simp
      with rem length_filter_le [of "\<lambda>h. exit_status env h (clock s + 60000000) = None" "Processes s"]
      show ?thesis by linarith
    qed
    from less.prems(3) a(1) have T1: "\<forall>k<length (cmds s1). \<forall>t\<ge>T. exit_status env k t \<noteq> None"
      by simp
    from less.hyps [OF dec inv1 post1 T1] obtain s' where "driving_loop c env s1 = Some (Inr s')"
      by blast
    with driving_loop_go [OF False c] show ?thesis by simp
  qed
qed

lemma driving_loop_result:
  assumes "driving_loop c env s = Some r"
  shows "launcher_inv c env s \<longrightarrow>
     \<not> (length (Processes s) < ParalleledNum c \<and> NextURLNo s < length (cmds s)) \<longrightarrow>
     (\<exists>s'. r = Inr s' \<and> launcher_inv c env s' \<and> Processes s' = [] \<and>
        length (cmds s') = length (cmds s) \<and>
        \<not> (length (Processes s') < ParalleledNum c \<and> NextURLNo s' < length (cmds s')))"
  using assms
proof (induction rule: driving_loop.raw_induct)
  case (1 f c env s r)
  note step = "1"
  show ?case
  proof (intro impI)
    assume inv: "launcher_inv c env s"
      and post: "\<not> (length (Processes s) < ParalleledNum c \<and> NextURLNo s < length (cmds s))"
    show "\<exists>s'. r = Inr s' \<and> launcher_inv c env s' \<and> Processes s' = [] \<and>
        length (cmds s') = length (cmds s) \<and>
        \<not> (length (Processes s') < ParalleledNum c \<and> NextURLNo s' < length (cmds s'))"
    proof (cases "Processes s = []")
      case True
      with step(2) have "r = Inr s" by simp
      with True inv post show ?thesis by auto
    next
      case False
      from inv have "launcher_inv c env (sleep 60 s)" by (simp add: launcher_inv_sleep)
      from CheckRunning_inv [OF this] obtain s1 where c: "CheckRunning c env (sleep 60 s) = Inr s1"
        and inv1: "launcher_inv c env s1" and a: "length (cmds s1) = length (cmds (sleep 60 s))"
        and post1: "\<not> (length (Processes s1) < ParalleledNum c \<and> NextURLNo s1 < length (cmds s1))"
        by (elim exE conjE)
      from step(2) False c have "f c env s1 = Some r" by simp
      moreover from step(3) driving_loop_go [OF False c] have "driving_loop c env s1 = Some r"
        by simp
      ultimately show ?thesis
        using step(1) [of c env s1 r] inv1 post1 a by (simp add: sleep_def)
    qed
  qed
qed (use assms in simp)


lemma uniform_exit_time:
  assumes "\<forall>k<n. \<exists>T. \<forall>t\<ge>T. exit_status env k t \<noteq> None"
  shows "\<exists>T. \<forall>k<n. \<forall>t\<ge>T. exit_status env k t \<noteq> None"
  using assms
proof (induction n)
  case 0
  then show ?case by simp
next
  case (Suc n)
  then obtain T1 where T1: "\<forall>k<n. \<forall>t\<ge>T1. exit_status env k t \<noteq> None" by auto
  from Suc.prems obtain T2 where T2: "\<forall>t\<ge>T2. exit_status env n t \<noteq> None" by blast
  have "\<forall>k<Suc n. \<forall>t\<ge>max T1 T2. exit_status env k t \<noteq> None"
  proof (intro allI impI)
    fix k t assume "k < Suc n" "max T1 T2 \<le> t"
    then show "exit_status env k t \<noteq> None"
      using T1 T2 by (cases "k = n") auto
  qed
  then show ?case by blast
qed

lemma first_fill:
  "\<exists>s. CheckRunning c env (init c t0) = Inr s \<and> launcher_inv c env s \<and>
     length (cmds s) = length (build_cmds c) \<and>
     \<not> (length (Processes s) < ParalleledNum c \<and> NextURLNo s < length (cmds s))"
proof -
  from CheckRunning_inv [OF launcher_inv_init [of c env t0]]
  obtain s where "CheckRunning c env (init c t0) = Inr s" "launcher_inv c env s"
    "length (cmds s) = length (cmds (init c t0))"
    "\<not> (length (Processes s) < ParalleledNum c \<and> NextURLNo s < length (cmds s))"
    by (elim exE conjE)
  then show ?thesis by (auto simp: init_def)
qed

lemma main_terminates:
  assumes "\<forall>k<length (build_cmds c). \<exists>T. \<forall>t\<ge>T. exit_status env k t \<noteq> None"
  shows "\<exists>s'. main c env t0 = Some (Inr s')"
proof -
  from first_fill [of c env t0] obtain s where c: "CheckRunning c env (init c t0) = Inr s"
    and inv: "launcher_inv c env s" and l: "length (cmds s) = length (build_cmds c)"
    and post: "\<not> (length (Processes s) < ParalleledNum c \<and> NextURLNo s < length (cmds s))"
    by (elim exE conjE)
  from uniform_exit_time [OF assms] l obtain T where
    "\<forall>k<length (cmds s). \<forall>t\<ge>T. exit_status env k t \<noteq> None" by auto
  from driving_loop_terminates [OF inv post this] c show ?thesis
    by (simp add: main_def)
qed

lemma main_result:
  assumes "main c env t0 = Some r" and N: "0 < ParalleledNum c"
  shows "\<exists>s'. r = Inr s' \<and> Processes s' = [] \<and> NextURLNo s' = length (cmds s') \<and>
     length (cmds s') = length (build_cmds c) \<and>
     map fst (launched s') = [0..<length (build_cmds c)] \<and>
     (\<forall>k<length (build_cmds c). \<exists>code t. exit_status env k t = Some code \<and>
        (k, Some code) \<in> set (polled s'))"
proof -
  from first_fill [of c env t0] obtain s where c: "CheckRunning c env (init c t0) = Inr s"
    and inv: "launcher_inv c env s" and l: "length (cmds s) = length (build_cmds c)"
    and post: "\<not> (length (Processes s) < ParalleledNum c \<and> NextURLNo s < length (cmds s))"
    by (elim exE conjE)
  from assms(1) c have "driving_loop c env s = Some r" by (simp add: main_def)
  from driving_loop_result [OF this] inv post obtain s' where r: "r = Inr s'"
    and inv': "launcher_inv c env s'" and e: "Processes s' = []"
    and l': "length (cmds s') = length (cmds s)"
    and post': "\<not> (length (Processes s') < ParalleledNum c \<and> NextURLNo s' < length (cmds s'))"
    by blast
  from inv' have i: "NextURLNo s' \<le> length (cmds s')" "map fst (launched s') = [0..<NextURLNo s']"
    "\<forall>k<NextURLNo s'. k \<in> set (Processes s') \<or> (\<exists>code. (k, Some code) \<in> set (polled s'))"
    "\<forall>(k, r)\<in>set (polled s'). \<exists>t. exit_status env k t = r"
    by (simp_all add: launcher_inv_def)
  from post' e N i(1) have n: "NextURLNo s' = length (cmds s')" by simp
  have "\<exists>code t. exit_status env k t = Some code \<and> (k, Some code) \<in> set (polled s')"
    if "k < length (build_cmds c)" for k
  proof -
    from that n l l' i(3) e obtain code where p: "(k, Some code) \<in> set (polled s')" by auto
    with i(4) obtain t where "exit_status env k t = Some code" by auto
    with p show ?thesis by blast
  qed
  with r e n l l' i(2) show ?thesis by simp
qed

text \<open>
  C4, as amended: with a parallelism limit of at least 1, the main program ends if every
  process eventually exits (from some time on its poll reports an exit code); and
  whenever it ends, it ends without an exception, every job of the queue has been
  dispatched (the cursor is the length of the queue and the launches are the indices
  \<open>0, 1, ...\<close> of the whole queue), no process is active, and every dispatched process
  was polled with an exit code. The loop stops at the first test that finds no active
  process and goes on to the next call of \<^verbatim>\<open>CheckRunning\<close> otherwise.
\<close>

theorem driving_loop_ends:
  assumes "0 < ParalleledNum c"
  shows "((\<forall>k<length (build_cmds c). \<exists>T. \<forall>t\<ge>T. exit_status env k t \<noteq> None) \<longrightarrow>
            (\<exists>s'. main c env t0 = Some (Inr s'))) \<and>
         (\<forall>r. main c env t0 = Some r \<longrightarrow>
            (\<exists>s'. r = Inr s' \<and> Processes s' = [] \<and> NextURLNo s' = length (cmds s') \<and>
               length (cmds s') = length (build_cmds c) \<and>
               map fst (launched s') = [0..<length (build_cmds c)] \<and>
               (\<forall>k<length (build_cmds c). \<exists>code t. exit_status env k t = Some code \<and>
                  (k, Some code) \<in> set (polled s')))) \<and>
         (\<forall>s. Processes s = [] \<longrightarrow> driving_loop c env s = Some (Inr s)) \<and>
         (\<forall>s s1. Processes s \<noteq> [] \<and> CheckRunning c env (sleep 60 s) = Inr s1 \<longrightarrow>
            driving_loop c env s = driving_loop c env s1)"
  using assms main_terminates [of c env t0] main_result [of c env t0]
    driving_loop_stop [of _ c env] driving_loop_go [of _ c env]
  by blast

theorem driving_loop_ends_witness:
  "0 < ParalleledNum four_jobs \<and>
   (\<exists>T. \<forall>k t. k < length (build_cmds four_jobs) \<and> T \<le> t \<longrightarrow>
      exit_status all_exit k t \<noteq> None) \<and>
   (\<exists>s'. main four_jobs all_exit 0 = Some (Inr s') \<and> Processes s' = [] \<and>
      NextURLNo s' = 4 \<and> map fst (launched s') = [0, 1, 2, 3])"
proof -
  have N: "0 < ParalleledNum four_jobs" by (simp add: four_jobs_def)
  have l: "length (build_cmds four_jobs) = 4" by code_simp
  have x: "\<forall>k<length (build_cmds four_jobs). \<exists>T. \<forall>t\<ge>T. exit_status all_exit k t \<noteq> None"
    by (auto simp: all_exit_def intro!: exI [of _ 60000000])
  note E = driving_loop_ends [OF N, of all_exit 0]
  from E x obtain s1 where m: "main four_jobs all_exit 0 = Some (Inr s1)" by blast
  with E obtain s' where "Inr s1 = (Inr s' :: error + state)" "Processes s' = []"
    "NextURLNo s' = length (cmds s')" "length (cmds s') = length (build_cmds four_jobs)"
    "map fst (launched s') = [0..<length (build_cmds four_jobs)]" by blast
  then have "Processes s1 = []" "NextURLNo s1 = 4" "map fst (launched s1) = [0..<4]"
    by (simp_all add: l)
  moreover have "[0..<4] = [0, 1, 2, 3::nat]" by (simp add: upt_rec)
  moreover have "\<exists>T. \<forall>k t. k < length (build_cmds four_jobs) \<and> T \<le> t \<longrightarrow>
      exit_status all_exit k t \<noteq> None"
    by (auto simp: all_exit_def intro!: exI [of _ 60000000])
  ultimately show ?thesis using N m by simp
qed

text \<open>
  C4 as it stands fails without a slot (a limit of 0): nothing is dispatched, the loop
  ends at once, and all four jobs of the queue remain undispatched.
\<close>

theorem no_slot_counterexample:
  "main no_slot all_exit 0 = Some (Inr (init no_slot 0)) \<and>
   NextURLNo (init no_slot 0) = 0 \<and> length (cmds (init no_slot 0)) = 4 \<and>
   launched (init no_slot 0) = []"
proof -
  have l: "length (build_cmds no_slot) = 4" by code_simp
  have N: "ParalleledNum no_slot = 0" by (simp add: no_slot_def)
  have p: "Processes (init no_slot 0) = []" by (simp add: init_def)
  have "reap all_exit (py_range (- int (length (Processes (init no_slot 0)))) 0) (init no_slot 0)
      = Inr (init no_slot 0)"
    by (simp add: p py_range_0)
  moreover have "refill no_slot all_exit (init no_slot 0) = Inr (init no_slot 0)"
    by (rule refill_stop) (simp add: N)
  ultimately have "CheckRunning no_slot all_exit (init no_slot 0) = Inr (init no_slot 0)"
    by (simp add: CheckRunning_def)
  then have "main no_slot all_exit 0 = Some (Inr (init no_slot 0))"
    by (simp add: main_def driving_loop_stop p)
  then show ?thesis using l by (simp add: init_def)
qed


section \<open>Every point of every run\<close>

lemma length_py_range: "length (py_range (- int n) 0) = n"
  by (induction n) (simp_all add: py_range_0 py_range_Suc del: of_nat_Suc)

lemma py_index_neg:
  "Suc m \<le> length xs \<Longrightarrow> py_index xs (- int (Suc m)) = Inr (length xs - Suc m)"
  by (auto simp: py_index_def)

lemma length_del: "j < length xs \<Longrightarrow> length (take j xs @ drop (Suc j) xs) = length xs - 1"
  by simp

lemma step_inv:
  assumes "run_inv c r"
  shows "run_inv c (step c env r)"
proof (cases r)
  case (Raised e)
  with assms show ?thesis by simp
next
  case (At pc s)
  with assms have base: "FileNames c \<noteq> [] \<or> cmds s = []" "length (Processes s) \<le> ParalleledNum c"
    "map fst (launched s) = [0..<NextURLNo s]" and pc: "pc_inv c pc s"
    by simp_all
  show ?thesis
  proof (cases pc)
    case At_CheckRunning
    with At base show ?thesis by (simp add: length_py_range)
  next
    case (At_for ps)
    show ?thesis
    proof (cases ps)
      case Nil
      with At At_for base show ?thesis by simp
    next
      case (Cons p ps')
      with pc At_for have ps: "p # ps' = py_range (- int (Suc (length ps'))) 0"
        and le: "Suc (length ps') \<le> length (Processes s)" by simp_all
      from ps have p: "p = - int (Suc (length ps'))" and ps': "ps' = py_range (- int (length ps')) 0"
        by (simp_all add: py_range_Suc del: of_nat_Suc)
      have "py_index (Processes s) p = Inr (length (Processes s) - Suc (length ps'))"
        unfolding p using le by (rule py_index_neg)
      with At At_for Cons base le p ps' show ?thesis
        by (simp add: poll_at_def Let_def del: of_nat_Suc)
    qed
  next
    case (At_del p ps)
    with pc have p: "p = - int (Suc (length ps))" and ps: "ps = py_range (- int (length ps)) 0"
      and le: "Suc (length ps) \<le> length (Processes s)" by simp_all
    have "py_index (Processes s) p = Inr (length (Processes s) - Suc (length ps))"
      unfolding p using le by (rule py_index_neg)
    then have st: "step c env r = At (At_for ps)
        (s\<lparr>Processes := take (length (Processes s) - Suc (length ps)) (Processes s) @
              drop (Suc (length (Processes s) - Suc (length ps))) (Processes s)\<rparr>)"
      using At At_del by (simp add: del_at_def)
    have "length (Processes s) - Suc (length ps) < length (Processes s)" using le by simp
    then have "length (take (length (Processes s) - Suc (length ps)) (Processes s) @
        drop (Suc (length (Processes s) - Suc (length ps))) (Processes s)) = length (Processes s) - 1"
      by (rule length_del)
    moreover have "length ps \<le> length (Processes s) - 1" "length (Processes s) - 1 \<le> ParalleledNum c"
      using le base(2) by linarith+
    ultimately show ?thesis using base ps unfolding st by (simp del: of_nat_Suc length_append)
  next
    case At_while
    with At base show ?thesis by simp
  next
    case At_sleep
    with At base pc show ?thesis by (simp add: sleep_def)
  next
    case At_StartNew
    with pc have n: "NextURLNo s < length (cmds s)" and l: "length (Processes s) < ParalleledNum c"
      by simp_all
    with base(1) have F: "FileNames c \<noteq> []" by auto
    from At At_StartNew base l F show ?thesis
      by (simp add: StartNew_ok [OF n F])
  next
    case At_main_while
    with At base show ?thesis by simp
  next
    case At_main_sleep
    with At base show ?thesis by (simp add: sleep_def)
  next
    case At_end
    with At base show ?thesis by simp
  qed
qed

lemma exec_Suc: "exec c env t0 (Suc n) = step c env (exec c env t0 n)"
  by (simp add: exec_def)

lemma exec_inv: "run_inv c (exec c env t0 n)"
proof (induction n)
  case 0
  show ?case
    by (auto simp: exec_def init_def build_cmds_def outer_loop_concat)
next
  case (Suc n)
  then show ?case by (simp only: exec_Suc step_inv)
qed

lemma run_inv_At:
  assumes "run_inv c r"
  obtains pc s where "r = At pc s" "length (Processes s) \<le> ParalleledNum c"
    "map fst (launched s) = [0..<NextURLNo s]" "pc_inv c pc s"
  using assms by (cases r) auto

lemma poll_at_frame:
  "poll_at env p s = Inr (b, s1) \<Longrightarrow>
     cmds s1 = cmds s \<and> NextURLNo s1 = NextURLNo s \<and> launched s1 = launched s"
  by (auto simp: poll_at_def Let_def split: sum.splits)

lemma del_at_frame:
  "del_at p s = Inr s1 \<Longrightarrow>
     cmds s1 = cmds s \<and> NextURLNo s1 = NextURLNo s \<and> launched s1 = launched s"
  by (auto simp: del_at_def split: sum.splits)

lemma step_frame:
  assumes "step c env (At pc s) = At pc' s'" and "pc \<noteq> At_StartNew"
  shows "cmds s' = cmds s \<and> NextURLNo s' = NextURLNo s \<and> launched s' = launched s"
proof (cases pc)
  case (At_for ps)
  with assms show ?thesis
    by (cases ps) (auto split: sum.splits if_splits dest: poll_at_frame)
next
  case (At_del p ps)
  with assms show ?thesis by (auto split: sum.splits dest: del_at_frame)
qed (use assms in \<open>auto simp: sleep_def split: if_splits\<close>)

lemma StartNew_queue_inv:
  assumes q: "queue_inv c (At pc s)" and st: "StartNew c env s = Inr s'"
  shows "queue_inv c (At pc' s')"
proof -
  let ?k = "NextURLNo s" and ?seed = "dateTime env (clock s)"
  from StartNew_Inr [OF st] have n: "?k < length (cmds s)"
    and s': "cmds s' = (cmds s)[?k := cmds s ! ?k @ [?seed]]"
      "launched s' = launched s @ [(?k, cmds s ! ?k @ [?seed])]"
      "NextURLNo s' = Suc ?k"
    by simp_all
  from q have i: "length (cmds s) = length (build_cmds c)" "length (launched s) = ?k"
    "\<forall>k<?k. \<exists>seed. launched s ! k = (k, build_cmds c ! k @ [seed]) \<and>
                                   cmds s ! k = build_cmds c ! k @ [seed]"
    "\<forall>k. ?k \<le> k \<longrightarrow> k < length (cmds s) \<longrightarrow> cmds s ! k = build_cmds c ! k"
    by simp_all
  from i(4) n have here: "cmds s ! ?k = build_cmds c ! ?k" by simp
  have a: "\<exists>seed. launched s' ! k = (k, build_cmds c ! k @ [seed]) \<and>
                 cmds s' ! k = build_cmds c ! k @ [seed]" if "k < Suc ?k" for k
  proof (cases "k = ?k")
    case True
    with n i(2) here show ?thesis by (simp add: s' nth_append)
  next
    case False
    with that have "k < ?k" by simp
    with i(2,3) False show ?thesis by (simp add: s' nth_append)
  qed
  have b: "cmds s' ! k = build_cmds c ! k" if "Suc ?k \<le> k" "k < length (cmds s)" for k
    using that i(4) by (simp add: s')
  from n i(1,2) a b show ?thesis by (simp add: s')
qed

lemma step_queue_inv:
  assumes r: "run_inv c r" and q: "queue_inv c r"
  shows "queue_inv c (step c env r)"
proof -
  from q obtain pc s where At: "r = At pc s" by (cases r) auto
  from step_inv [OF r, of env] obtain pc' s' where st: "step c env r = At pc' s'"
    by (cases "step c env r") auto
  show ?thesis
  proof (cases "pc = At_StartNew")
    case True
    with st At obtain s1 where "StartNew c env s = Inr s1" "step c env r = At At_while s1"
      by (cases "StartNew c env s") auto
    with q At show ?thesis by (simp del: queue_inv.simps add: StartNew_queue_inv)
  next
    case False
    from step_frame [OF st [unfolded At] False] q At st show ?thesis by simp
  qed
qed

lemma exec_queue_inv: "queue_inv c (exec c env t0 n)"
proof (induction n)
  case 0
  show ?case by (simp add: exec_def init_def)
next
  case (Suc n)
  from step_queue_inv [OF exec_inv Suc] show ?case by (simp only: exec_Suc)
qed


lemma observe_four: "observe (exec four_jobs first_exits 0 4) = Some (At_StartNew, 0, [], [])"
  by code_simp

lemma observe_nineteen:
  "observe (exec four_jobs first_exits 0 19) = Some (At_while, 3, [1, 2], [0, 1, 2])"
  by code_simp


text \<open>
  C1: at every point between two statements of the main program and of \<^verbatim>\<open>CheckRunning\<close>,
  however long the script has run and whatever the processes do, the run has raised no
  exception and the number of active processes is at most the parallelism limit. A
  dispatch is only entered with fewer active processes than the limit, and it adds
  exactly one process.
\<close>

theorem active_set_bounded:
  "(\<exists>pc s. exec c env t0 n = At pc s \<and> length (Processes s) \<le> ParalleledNum c \<and>
      (pc = At_StartNew \<longrightarrow> length (Processes s) < ParalleledNum c)) \<and>
   (\<forall>s s'. StartNew c env s = Inr s' \<longrightarrow> length (Processes s') = length (Processes s) + 1)"
proof -
  obtain pc s where "exec c env t0 n = At pc s" "length (Processes s) \<le> ParalleledNum c"
    "pc_inv c pc s"
    using exec_inv [of c env t0 n] by (rule run_inv_At)
  then have "\<exists>pc s. exec c env t0 n = At pc s \<and> length (Processes s) \<le> ParalleledNum c \<and>
      (pc = At_StartNew \<longrightarrow> length (Processes s) < ParalleledNum c)"
    by auto
  moreover have "\<forall>s s'. StartNew c env s = Inr s' \<longrightarrow> length (Processes s') = length (Processes s) + 1"
    by (auto dest!: StartNew_Inr)
  ultimately show ?thesis by blast
qed

text \<open>
  C5: at every point of every run, whatever the exit codes of the processes, the jobs
  launched so far are the queue indices \<open>0, 1, 2, ...\<close> below the cursor, in this
  order, so that no index was launched twice, and the \<open>k\<close>-th launch passed the queue
  entry \<open>k\<close> as built at startup, followed by a seed; each dispatch launches the job
  at the cursor, with its queue entry and the seed as arguments, and moves the cursor by
  exactly one.
\<close>

theorem dispatch_in_queue_order:
  "(\<exists>pc s. exec c env t0 n = At pc s \<and>
      map fst (launched s) = [0..<NextURLNo s] \<and> distinct (map fst (launched s)) \<and>
      length (launched s) = NextURLNo s \<and>
      (\<forall>k<NextURLNo s. \<exists>seed. launched s ! k = (k, build_cmds c ! k @ [seed]))) \<and>
   (\<forall>s s'. StartNew c env s = Inr s' \<longrightarrow>
      NextURLNo s' = NextURLNo s + 1 \<and>
      launched s' = launched s @
        [(NextURLNo s, cmds s ! NextURLNo s @ [dateTime env (clock s)])] \<and>
      map fst (launched s') = map fst (launched s) @ [NextURLNo s])"
proof -
  obtain pc s where e: "exec c env t0 n = At pc s" and m: "map fst (launched s) = [0..<NextURLNo s]"
    using exec_inv [of c env t0 n] by (rule run_inv_At)
  from exec_queue_inv [of c env t0 n] e have
    "length (launched s) = NextURLNo s"
    "\<forall>k<NextURLNo s. \<exists>seed. launched s ! k = (k, build_cmds c ! k @ [seed])"
    by auto
  with e m have "\<exists>pc s. exec c env t0 n = At pc s \<and>
      map fst (launched s) = [0..<NextURLNo s] \<and> distinct (map fst (launched s)) \<and>
      length (launched s) = NextURLNo s \<and>
      (\<forall>k<NextURLNo s. \<exists>seed. launched s ! k = (k, build_cmds c ! k @ [seed]))"
    by auto
  moreover have "\<forall>s s'. StartNew c env s = Inr s' \<longrightarrow>
      NextURLNo s' = NextURLNo s + 1 \<and>
      launched s' = launched s @
        [(NextURLNo s, cmds s ! NextURLNo s @ [dateTime env (clock s)])] \<and>
      map fst (launched s') = map fst (launched s) @ [NextURLNo s]"
    by (auto dest!: StartNew_Inr)
  ultimately show ?thesis by (rule conjI)
qed

theorem active_set_bounded_witness:
  "(\<exists>s. exec four_jobs first_exits 0 4 = At At_StartNew s \<and>
      length (Processes s) < ParalleledNum four_jobs) \<and>
   (\<exists>s. exec four_jobs first_exits 0 19 = At At_while s \<and> Processes s = [1, 2] \<and>
      length (Processes s) \<le> ParalleledNum four_jobs)"
proof -
  from active_set_bounded [of four_jobs first_exits 0 4]
  obtain pc s where e: "exec four_jobs first_exits 0 4 = At pc s"
    and b: "pc = At_StartNew \<longrightarrow> length (Processes s) < ParalleledNum four_jobs"
    by blast
  from observe_four e have "pc = At_StartNew" by simp
  with e b have one: "\<exists>s. exec four_jobs first_exits 0 4 = At At_StartNew s \<and>
      length (Processes s) < ParalleledNum four_jobs" by blast
  from active_set_bounded [of four_jobs first_exits 0 19]
  obtain pc' s' where e': "exec four_jobs first_exits 0 19 = At pc' s'"
    and b': "length (Processes s') \<le> ParalleledNum four_jobs"
    by blast
  from observe_nineteen e' have "pc' = At_while" "Processes s' = [1, 2]" by simp_all
  with e' b' have "\<exists>s. exec four_jobs first_exits 0 19 = At At_while s \<and> Processes s = [1, 2] \<and>
      length (Processes s) \<le> ParalleledNum four_jobs" by blast
  with one show ?thesis by blast
qed

theorem dispatch_in_queue_order_witness:
  "(\<exists>s. exec four_jobs first_exits 0 19 = At At_while s \<and> NextURLNo s = 3 \<and>
      map fst (launched s) = [0..<3] \<and> distinct (map fst (launched s)) \<and>
      (\<exists>seed. launched s ! 2 = (2, mk_cmd four_jobs (''C'', ''JOS'', ''SAI'') @ [seed]))) \<and>
   (\<exists>s'. StartNew four_jobs first_exits (init four_jobs 0) = Inr s' \<and> NextURLNo s' = 1 \<and>
      launched s' = [(0, mk_cmd four_jobs (''A'', ''JOS'', ''SAI'') @ [''0101000000''])])"
proof -
  note D = dispatch_in_queue_order [of four_jobs first_exits 0 19]
  from D obtain pc s where e: "exec four_jobs first_exits 0 19 = At pc s"
    and b: "map fst (launched s) = [0..<NextURLNo s]" "distinct (map fst (launched s))"
      "\<forall>k<NextURLNo s. \<exists>seed. launched s ! k = (k, build_cmds four_jobs ! k @ [seed])"
    by blast
  from observe_nineteen e have o: "pc = At_while" "NextURLNo s = 3" by simp_all
  have q: "build_cmds four_jobs ! 2 = mk_cmd four_jobs (''C'', ''JOS'', ''SAI'')"
    "build_cmds four_jobs ! 0 = mk_cmd four_jobs (''A'', ''JOS'', ''SAI'')"
    by (simp_all add: build_cmds_def four_jobs_def)
  from b(3) o(2) have "\<exists>seed. launched s ! 2 = (2, build_cmds four_jobs ! 2 @ [seed])" by simp
  with e b o have one: "\<exists>s. exec four_jobs first_exits 0 19 = At At_while s \<and> NextURLNo s = 3 \<and>
      map fst (launched s) = [0..<3] \<and> distinct (map fst (launched s)) \<and>
      (\<exists>seed. launched s ! 2 = (2, mk_cmd four_jobs (''C'', ''JOS'', ''SAI'') @ [seed]))"
    unfolding q by auto
  have n: "NextURLNo (init four_jobs 0) < length (cmds (init four_jobs 0))" by code_simp
  have F: "FileNames four_jobs \<noteq> []" by (simp add: four_jobs_def)
  have d: "dateTime first_exits 0 = ''0101000000''" by code_simp
  from StartNew_ok [OF n F, of first_exits] obtain s' where
    st: "StartNew four_jobs first_exits (init four_jobs 0) = Inr s'" by blast
  with D have "NextURLNo s' = NextURLNo (init four_jobs 0) + 1"
    "launched s' = launched (init four_jobs 0) @
        [(NextURLNo (init four_jobs 0),
          cmds (init four_jobs 0) ! NextURLNo (init four_jobs 0) @
            [dateTime first_exits (clock (init four_jobs 0))])]"
    by blast+
  then have "NextURLNo s' = 1"
    "launched s' = [(0, mk_cmd four_jobs (''A'', ''JOS'', ''SAI'') @ [''0101000000''])]"
    by (simp_all add: init_def d q)
  with st have "\<exists>s'. StartNew four_jobs first_exits (init four_jobs 0) = Inr s' \<and> NextURLNo s' = 1 \<and>
      launched s' = [(0, mk_cmd four_jobs (''A'', ''JOS'', ''SAI'') @ [''0101000000''])]"
    by (intro exI [of _ s'] conjI)
  with one show ?thesis by (rule conjI)
qed


section \<open>The statement-level run and the functions agree\<close>

text \<open>
  Run from the point where \<^verbatim>\<open>CheckRunning\<close> is called, the statements reach the main
  loop's test in the state the function \<open>CheckRunning\<close> returns, or raise the
  exception it returns; and when the main program returns, the statement-level run
  reaches the end of the loop in the same state.
\<close>

lemma steps_trans:
  assumes "(step c env ^^ a) r = r'" and "(step c env ^^ b) r' = r''"
  shows "(step c env ^^ (b + a)) r = r''"
  using assms by (simp add: funpow_add)

lemma steps_for:
  "\<exists>k. (step c env ^^ k) (At (At_for ps) s) =
     (case reap env ps s of Inl e \<Rightarrow> Raised e | Inr s' \<Rightarrow> At At_while s')"
proof (induction ps arbitrary: s)
  case Nil
  have "(step c env ^^ 1) (At (At_for []) s) = At At_while s" by simp
  then show ?case by (metis reap.simps(1) sum.simps(6))
next
  case (Cons p ps)
  show ?case
  proof (cases "poll_at env p s")
    case (Inl e)
    have "(step c env ^^ 1) (At (At_for (p # ps)) s) = Raised e" using Inl by simp
    moreover have "reap env (p # ps) s = Inl e" using Inl by simp
    ultimately show ?thesis by (metis sum.simps(5))
  next
    case (Inr b)
    obtain exited s1 where b: "b = (exited, s1)" by (cases b)
    show ?thesis
    proof (cases exited)
      case False
      have one: "(step c env ^^ 1) (At (At_for (p # ps)) s) = At (At_for ps) s1"
        using Inr b False by simp
      from Cons.IH [of s1] obtain k where
        "(step c env ^^ k) (At (At_for ps) s1) =
           (case reap env ps s1 of Inl e \<Rightarrow> Raised e | Inr s' \<Rightarrow> At At_while s')" ..
      from steps_trans [OF one this] have
        "(step c env ^^ (k + 1)) (At (At_for (p # ps)) s) =
           (case reap env ps s1 of Inl e \<Rightarrow> Raised e | Inr s' \<Rightarrow> At At_while s')" .
      moreover have "reap env (p # ps) s = reap env ps s1" using Inr b False by simp
      ultimately show ?thesis by metis
    next
      case True
      have one: "(step c env ^^ 1) (At (At_for (p # ps)) s) = At (At_del p ps) s1"
        using Inr b True by simp
      show ?thesis
      proof (cases "del_at p s1")
        case (Inl e)
        have "(step c env ^^ 1) (At (At_del p ps) s1) = Raised e" using Inl by simp
        from steps_trans [OF one this]
        have "(step c env ^^ (1 + 1)) (At (At_for (p # ps)) s) = Raised e" .
        moreover have "reap env (p # ps) s = Inl e" using Inr b True Inl by simp
        ultimately show ?thesis by (metis sum.simps(5))
      next
        case del: (Inr s2)
        have "(step c env ^^ 1) (At (At_del p ps) s1) = At (At_for ps) s2" using del by simp
        from steps_trans [OF one this]
        have two: "(step c env ^^ (1 + 1)) (At (At_for (p # ps)) s) = At (At_for ps) s2" .
        from Cons.IH [of s2] obtain k where
          "(step c env ^^ k) (At (At_for ps) s2) =
             (case reap env ps s2 of Inl e \<Rightarrow> Raised e | Inr s' \<Rightarrow> At At_while s')" ..
        from steps_trans [OF two this] have
          "(step c env ^^ (k + (1 + 1))) (At (At_for (p # ps)) s) =
             (case reap env ps s2 of Inl e \<Rightarrow> Raised e | Inr s' \<Rightarrow> At At_while s')" .
        moreover have "reap env (p # ps) s = reap env ps s2" using Inr b True del by simp
        ultimately show ?thesis by metis
      qed
    qed
  qed
qed

lemma steps_while:
  "\<exists>k. (step c env ^^ k) (At At_while s) =
     (case refill c env s of Inl e \<Rightarrow> Raised e | Inr s' \<Rightarrow> At At_main_while s')"
proof (induction c env s rule: refill.induct)
  case (1 c env s)
  show ?case
  proof (cases "length (Processes s) < ParalleledNum c \<and> NextURLNo s < length (cmds s)")
    case False
    then have "(step c env ^^ 1) (At At_while s) = At At_main_while s" by auto
    moreover have "refill c env s = Inr s" using False by (rule refill_stop)
    ultimately show ?thesis by (metis sum.simps(6))
  next
    case True
    have "(step c env ^^ 2) (At At_while s) = At At_StartNew (sleep 1 s)"
      using True by (simp add: numeral_2_eq_2)
    then have three: "(step c env ^^ 3) (At At_while s) =
        (case StartNew c env (sleep 1 s) of Inl e \<Rightarrow> Raised e | Inr s' \<Rightarrow> At At_while s')"
      by (simp add: numeral_3_eq_3 numeral_2_eq_2)
    from True have r: "refill c env s =
        (case StartNew c env (sleep 1 s) of Inl e \<Rightarrow> Inl e | Inr s' \<Rightarrow> refill c env s')"
      by (simp add: refill_go)
    show ?thesis
    proof (cases "StartNew c env (sleep 1 s)")
      case (Inl e)
      with three r show ?thesis by (metis sum.simps(5))
    next
      case (Inr s1)
      with three have a: "(step c env ^^ 3) (At At_while s) = At At_while s1" by simp
      from "1.IH" [OF True Inr] obtain k where
        "(step c env ^^ k) (At At_while s1) =
           (case refill c env s1 of Inl e \<Rightarrow> Raised e | Inr s' \<Rightarrow> At At_main_while s')" ..
      from steps_trans [OF a this] r Inr show ?thesis by (metis sum.simps(6))
    qed
  qed
qed

lemma steps_Raised: "(step c env ^^ k) (Raised e) = Raised e"
  by (induction k) simp_all

lemma steps_CheckRunning:
  "\<exists>k. (step c env ^^ k) (At At_CheckRunning s) =
     (case CheckRunning c env s of Inl e \<Rightarrow> Raised e | Inr s' \<Rightarrow> At At_main_while s')"
proof -
  let ?ps = "py_range (- int (length (Processes s))) 0"
  have one: "(step c env ^^ 1) (At At_CheckRunning s) = At (At_for ?ps) s" by simp
  from steps_for [of c env ?ps s] obtain k where
    k: "(step c env ^^ k) (At (At_for ?ps) s) =
     (case reap env ?ps s of Inl e \<Rightarrow> Raised e | Inr s' \<Rightarrow> At At_while s')" ..
  show ?thesis
  proof (cases "reap env ?ps s")
    case (Inl e)
    with steps_trans [OF one k] have "(step c env ^^ (k + 1)) (At At_CheckRunning s) = Raised e"
      by simp
    moreover have "CheckRunning c env s = Inl e" using Inl by (simp add: CheckRunning_def)
    ultimately show ?thesis by (metis sum.simps(5))
  next
    case (Inr s1)
    with steps_trans [OF one k] have a: "(step c env ^^ (k + 1)) (At At_CheckRunning s) = At At_while s1"
      by simp
    from steps_while [of c env s1] obtain j where
      "(step c env ^^ j) (At At_while s1) =
     (case refill c env s1 of Inl e \<Rightarrow> Raised e | Inr s' \<Rightarrow> At At_main_while s')" ..
    from steps_trans [OF a this] have
      "(step c env ^^ (j + (k + 1))) (At At_CheckRunning s) =
        (case refill c env s1 of Inl e \<Rightarrow> Raised e | Inr s' \<Rightarrow> At At_main_while s')" .
    moreover have "CheckRunning c env s = refill c env s1" using Inr by (simp add: CheckRunning_def)
    ultimately show ?thesis by metis
  qed
qed


lemma steps_driving_loop:
  assumes "driving_loop c env s = Some r"
  shows "\<exists>k. (step c env ^^ k) (At At_main_while s) =
     (case r of Inl e \<Rightarrow> Raised e | Inr s' \<Rightarrow> At At_end s')"
  using assms
proof (induction rule: driving_loop.raw_induct)
  case (1 f c env s r)
  note h = "1"
  show ?case
  proof (cases "Processes s = []")
    case True
    with h(2) have "r = Inr s" by simp
    moreover have "(step c env ^^ 1) (At At_main_while s) = At At_end s" using True by simp
    ultimately show ?thesis by (metis sum.simps(6))
  next
    case False
    then have "(step c env ^^ 2) (At At_main_while s) = At At_CheckRunning (sleep 60 s)"
      by (simp add: numeral_2_eq_2)
    moreover from steps_CheckRunning [of c env "sleep 60 s"] obtain k where
      "(step c env ^^ k) (At At_CheckRunning (sleep 60 s)) =
        (case CheckRunning c env (sleep 60 s) of Inl e \<Rightarrow> Raised e
         | Inr s' \<Rightarrow> At At_main_while s')" ..
    ultimately have a: "(step c env ^^ (k + 2)) (At At_main_while s) =
        (case CheckRunning c env (sleep 60 s) of Inl e \<Rightarrow> Raised e
         | Inr s' \<Rightarrow> At At_main_while s')"
      by (rule steps_trans)
    show ?thesis
    proof (cases "CheckRunning c env (sleep 60 s)")
      case (Inl e)
      with h(2) False have "r = Inl e" by simp
      with a Inl show ?thesis by (metis sum.simps(5))
    next
      case (Inr s1)
      with h(2) False have fr: "f c env s1 = Some r" by simp
      from h(3) driving_loop_go [OF False Inr] have "driving_loop c env s1 = Some r" by simp
      from h(1) [OF fr this] obtain j where
        "(step c env ^^ j) (At At_main_while s1) =
          (case r of Inl e \<Rightarrow> Raised e | Inr s' \<Rightarrow> At At_end s')" ..
      moreover from a Inr have "(step c env ^^ (k + 2)) (At At_main_while s) = At At_main_while s1"
        by simp
      ultimately show ?thesis by (metis steps_trans)
    qed
  qed
qed (use assms in simp)

lemma exec_reaches_main:
  assumes "main c env t0 = Some r"
  shows "\<exists>n. exec c env t0 n = (case r of Inl e \<Rightarrow> Raised e | Inr s' \<Rightarrow> At At_end s')"
proof -
  from steps_CheckRunning [of c env "init c t0"] obtain k where
    k: "(step c env ^^ k) (At At_CheckRunning (init c t0)) =
      (case CheckRunning c env (init c t0) of Inl e \<Rightarrow> Raised e
       | Inr s' \<Rightarrow> At At_main_while s')" ..
  show ?thesis
  proof (cases "CheckRunning c env (init c t0)")
    case (Inl e)
    with assms have "r = Inl e" by (simp add: main_def)
    with k Inl show ?thesis by (auto simp: exec_def)
  next
    case (Inr s)
    with assms have "driving_loop c env s = Some r" by (simp add: main_def)
    from steps_driving_loop [OF this] obtain j where
      "(step c env ^^ j) (At At_main_while s) =
        (case r of Inl e \<Rightarrow> Raised e | Inr s' \<Rightarrow> At At_end s')" ..
    moreover from k Inr have "(step c env ^^ k) (At At_CheckRunning (init c t0)) = At At_main_while s"
      by simp
    ultimately have "(step c env ^^ (j + k)) (At At_CheckRunning (init c t0)) =
        (case r of Inl e \<Rightarrow> Raised e | Inr s' \<Rightarrow> At At_end s')"
      by (metis steps_trans)
    then show ?thesis unfolding exec_def by blast
  qed
qed


section \<open>The scenario with two slots and four jobs\<close>

lemma first_fill_two:
  assumes "ParalleledNum c = 2" and "FileNames c \<noteq> []"
    and "cmds s0 = [A, B, C, D]" and "NextURLNo s0 = 0" and "Processes s0 = []"
  shows "CheckRunning c env s0 = Inr
     (s0\<lparr>cmds := [A @ [dateTime env (clock s0 + 1000000)],
                   B @ [dateTime env (clock s0 + 2000000)], C, D],
          clock := clock s0 + 2000000,
          launched := launched s0 @ [(0, A @ [dateTime env (clock s0 + 1000000)]),
                                      (1, B @ [dateTime env (clock s0 + 2000000)])],
          printed := printed s0 @ [(1, 4, FileNames c ! (0 mod length (FileNames c))),
                                    (2, 4, FileNames c ! (1 mod length (FileNames c)))],
          NextURLNo := 2,
          Processes := [0, 1]\<rparr>)"
proof -
  have r: "reap env (py_range (- int (length (Processes s0))) 0) s0 = Inr s0"
    by (simp add: assms py_range_0)
  define s1 where "s1 = s0\<lparr>cmds := [A @ [dateTime env (clock s0 + 1000000)], B, C, D],
          clock := clock s0 + 1000000,
          launched := launched s0 @ [(0, A @ [dateTime env (clock s0 + 1000000)])],
          printed := printed s0 @ [(1, 4, FileNames c ! (0 mod length (FileNames c)))],
          NextURLNo := 1,
          Processes := [0]\<rparr>"
  define s2 where "s2 = s0\<lparr>cmds := [A @ [dateTime env (clock s0 + 1000000)],
                   B @ [dateTime env (clock s0 + 2000000)], C, D],
          clock := clock s0 + 2000000,
          launched := launched s0 @ [(0, A @ [dateTime env (clock s0 + 1000000)]),
                                      (1, B @ [dateTime env (clock s0 + 2000000)])],
          printed := printed s0 @ [(1, 4, FileNames c ! (0 mod length (FileNames c))),
                                    (2, 4, FileNames c ! (1 mod length (FileNames c)))],
          NextURLNo := 2,
          Processes := [0, 1]\<rparr>"
  have a: "StartNew c env (sleep 1 s0) = Inr s1"
    by (subst StartNew_ok) (simp_all add: assms sleep_def s1_def)
  have b: "StartNew c env (sleep 1 s1) = Inr s2"
    by (subst StartNew_ok) (simp_all add: assms sleep_def s1_def s2_def eval_nat_numeral add.commute)
  have c0: "length (Processes s0) < ParalleledNum c" "NextURLNo s0 < length (cmds s0)"
    by (simp_all add: assms)
  have c1: "length (Processes s1) < ParalleledNum c" "NextURLNo s1 < length (cmds s1)"
    by (simp_all add: assms s1_def)
  have "refill c env s2 = Inr s2"
    by (rule refill_stop) (simp add: assms s2_def)
  with refill_go [OF c1, of env] b have "refill c env s1 = Inr s2" by simp
  with refill_go [OF c0, of env] a have "refill c env s0 = Inr s2" by simp
  with r show ?thesis by (simp add: CheckRunning_def s2_def)
qed


lemma next_fill_two:
  assumes "ParalleledNum c = 2" and "FileNames c \<noteq> []"
    and "cmds s = [A, B, C, D]" and "NextURLNo s = 2" and "Processes s = [0, 1]"
    and "exit_status env 0 (clock s) = Some code" and "exit_status env 1 (clock s) = None"
  shows "CheckRunning c env s = Inr
     (s\<lparr>polled := polled s @ [(0, Some code), (1, None)],
         cmds := [A, B, C @ [dateTime env (clock s + 1000000)], D],
         clock := clock s + 1000000,
         launched := launched s @ [(2, C @ [dateTime env (clock s + 1000000)])],
         printed := printed s @ [(3, 4, FileNames c ! (2 mod length (FileNames c)))],
         NextURLNo := 3,
         Processes := [1, 2]\<rparr>)"
proof -
  define r where "r = s\<lparr>Processes := [1], polled := polled s @ [(0, Some code), (1, None)]\<rparr>"
  define s' where "s' = s\<lparr>polled := polled s @ [(0, Some code), (1, None)],
         cmds := [A, B, C @ [dateTime env (clock s + 1000000)], D],
         clock := clock s + 1000000,
         launched := launched s @ [(2, C @ [dateTime env (clock s + 1000000)])],
         printed := printed s @ [(3, 4, FileNames c ! (2 mod length (FileNames c)))],
         NextURLNo := 3,
         Processes := [1, 2]\<rparr>"
  from assms(7) have e1: "exit_status env (Suc 0) (clock s) = None" by simp
  have reap: "reap env (py_range (- int (length (Processes s))) 0) s = Inr r"
    by (simp only: reap_pass) (simp add: assms e1 r_def)
  have a: "StartNew c env (sleep 1 r) = Inr s'"
    by (subst StartNew_ok) (simp_all add: assms sleep_def r_def s'_def eval_nat_numeral add.commute)
  have c0: "length (Processes r) < ParalleledNum c" "NextURLNo r < length (cmds r)"
    by (simp_all add: assms r_def)
  have "refill c env s' = Inr s'"
    by (rule refill_stop) (simp add: assms s'_def)
  with refill_go [OF c0, of env] a have "refill c env r = Inr s'" by simp
  with reap show ?thesis by (simp add: CheckRunning_def s'_def)
qed

text \<open>
  C6: with a parallelism limit of 2 and the queue \<open>[A, B, C, D]\<close>, the first call of
  \<^verbatim>\<open>CheckRunning\<close> leaves exactly the processes of A and B active (the handles 0 and 1).
  If at the next call, a minute later, the process of A has exited and that of B has
  not, this call removes A's handle and dispatches exactly C: the active processes are
  those of B and C, the cursor stands at D, which is still as it was queued.
\<close>

theorem scenario_limit_two:
  assumes "ParalleledNum c = 2" and "FileNames c \<noteq> []"
    and "cmds s0 = [A, B, C, D]" and "NextURLNo s0 = 0" and "Processes s0 = []"
    and "launched s0 = []"
  shows "\<exists>s1. CheckRunning c env s0 = Inr s1 \<and> Processes s1 = [0, 1] \<and> NextURLNo s1 = 2 \<and>
      clock s1 = clock s0 + 2000000 \<and>
      launched s1 = [(0, A @ [dateTime env (clock s0 + 1000000)]),
                     (1, B @ [dateTime env (clock s0 + 2000000)])] \<and>
      (\<forall>code. exit_status env 0 (clock (sleep 60 s1)) = Some code \<and>
              exit_status env 1 (clock (sleep 60 s1)) = None \<longrightarrow>
         (\<exists>s2. CheckRunning c env (sleep 60 s1) = Inr s2 \<and> Processes s2 = [1, 2] \<and>
            NextURLNo s2 = 3 \<and>
            launched s2 = launched s1 @ [(2, C @ [dateTime env (clock s0 + 63000000)])] \<and>
            cmds s2 ! 3 = D))"
proof -
  define s1 where "s1 = s0\<lparr>cmds := [A @ [dateTime env (clock s0 + 1000000)],
                   B @ [dateTime env (clock s0 + 2000000)], C, D],
          clock := clock s0 + 2000000,
          launched := launched s0 @ [(0, A @ [dateTime env (clock s0 + 1000000)]),
                                      (1, B @ [dateTime env (clock s0 + 2000000)])],
          printed := printed s0 @ [(1, 4, FileNames c ! (0 mod length (FileNames c))),
                                    (2, 4, FileNames c ! (1 mod length (FileNames c)))],
          NextURLNo := 2,
          Processes := [0, 1]\<rparr>"
  have one: "CheckRunning c env s0 = Inr s1"
    unfolding s1_def by (rule first_fill_two [OF assms(1-5)])
  have p: "Processes s1 = [0, 1]" "NextURLNo s1 = 2" "clock s1 = clock s0 + 2000000"
    "launched s1 = [(0, A @ [dateTime env (clock s0 + 1000000)]),
                     (1, B @ [dateTime env (clock s0 + 2000000)])]"
    by (simp_all add: s1_def assms(6))
  have z: "cmds (sleep 60 s1) = [A @ [dateTime env (clock s0 + 1000000)],
                   B @ [dateTime env (clock s0 + 2000000)], C, D]"
    "NextURLNo (sleep 60 s1) = 2" "Processes (sleep 60 s1) = [0, 1]"
    "clock (sleep 60 s1) = clock s0 + 62000000" "launched (sleep 60 s1) = launched s1"
    by (simp_all add: s1_def sleep_def)
  have two: "\<exists>s2. CheckRunning c env (sleep 60 s1) = Inr s2 \<and> Processes s2 = [1, 2] \<and>
            NextURLNo s2 = 3 \<and>
            launched s2 = launched s1 @ [(2, C @ [dateTime env (clock s0 + 63000000)])] \<and>
            cmds s2 ! 3 = D"
    if "exit_status env 0 (clock (sleep 60 s1)) = Some code"
      and "exit_status env 1 (clock (sleep 60 s1)) = None" for code
    using next_fill_two [OF assms(1,2) z(1,2,3) that] by (simp add: z add.commute)
  from one p two show ?thesis by blast
qed


theorem scenario_limit_two_witness:
  "ParalleledNum four_jobs = 2 \<and> FileNames four_jobs \<noteq> [] \<and>
   cmds (init four_jobs 0) =
     [mk_cmd four_jobs (''A'', ''JOS'', ''SAI''), mk_cmd four_jobs (''B'', ''JOS'', ''SAI''),
      mk_cmd four_jobs (''C'', ''JOS'', ''SAI''), mk_cmd four_jobs (''D'', ''JOS'', ''SAI'')] \<and>
   (\<exists>s1 s2. CheckRunning four_jobs first_exits (init four_jobs 0) = Inr s1 \<and>
      Processes s1 = [0, 1] \<and>
      exit_status first_exits 0 (clock (sleep 60 s1)) = Some 1 \<and>
      exit_status first_exits 1 (clock (sleep 60 s1)) = None \<and>
      CheckRunning four_jobs first_exits (sleep 60 s1) = Inr s2 \<and>
      Processes s2 = [1, 2] \<and> NextURLNo s2 = 3 \<and>
      launched s2 = launched s1 @
        [(2, mk_cmd four_jobs (''C'', ''JOS'', ''SAI'') @ [''0101000103''])])"
proof -
  have N: "ParalleledNum four_jobs = 2" and F: "FileNames four_jobs \<noteq> []"
    by (simp_all add: four_jobs_def)
  have q: "cmds (init four_jobs 0) =
     [mk_cmd four_jobs (''A'', ''JOS'', ''SAI''), mk_cmd four_jobs (''B'', ''JOS'', ''SAI''),
      mk_cmd four_jobs (''C'', ''JOS'', ''SAI''), mk_cmd four_jobs (''D'', ''JOS'', ''SAI'')]"
    by (simp add: init_def build_cmds_def four_jobs_def)
  have i: "NextURLNo (init four_jobs 0) = 0" "Processes (init four_jobs 0) = []"
    "launched (init four_jobs 0) = []" "clock (init four_jobs 0) = 0"
    by (simp_all add: init_def)
  have d: "dateTime first_exits (0 + 63000000) = ''0101000103''" by code_simp
  from scenario_limit_two [OF N F q i(1,2,3), of first_exits]
  obtain s1 where one: "CheckRunning four_jobs first_exits (init four_jobs 0) = Inr s1"
    and p: "Processes s1 = [0, 1]" "clock s1 = 2000000"
    and nxt: "\<forall>code. exit_status first_exits 0 (clock (sleep 60 s1)) = Some code \<and>
              exit_status first_exits 1 (clock (sleep 60 s1)) = None \<longrightarrow>
         (\<exists>s2. CheckRunning four_jobs first_exits (sleep 60 s1) = Inr s2 \<and> Processes s2 = [1, 2] \<and>
            NextURLNo s2 = 3 \<and>
            launched s2 = launched s1 @
              [(2, mk_cmd four_jobs (''C'', ''JOS'', ''SAI'') @ [''0101000103''])] \<and>
            cmds s2 ! 3 = mk_cmd four_jobs (''D'', ''JOS'', ''SAI''))"
    unfolding i(4) d by auto
  have e: "exit_status first_exits 0 (clock (sleep 60 s1)) = Some 1"
    "exit_status first_exits 1 (clock (sleep 60 s1)) = None"
    by (simp_all add: first_exits_def sleep_def p)
  with nxt obtain s2 where "CheckRunning four_jobs first_exits (sleep 60 s1) = Inr s2"
    "Processes s2 = [1, 2]" "NextURLNo s2 = 3"
    "launched s2 = launched s1 @
        [(2, mk_cmd four_jobs (''C'', ''JOS'', ''SAI'') @ [''0101000103''])]"
    by blast
  with one p e have "\<exists>s1 s2. CheckRunning four_jobs first_exits (init four_jobs 0) = Inr s1 \<and>
      Processes s1 = [0, 1] \<and>
      exit_status first_exits 0 (clock (sleep 60 s1)) = Some 1 \<and>
      exit_status first_exits 1 (clock (sleep 60 s1)) = None \<and>
      CheckRunning four_jobs first_exits (sleep 60 s1) = Inr s2 \<and>
      Processes s2 = [1, 2] \<and> NextURLNo s2 = 3 \<and>
      launched s2 = launched s1 @
        [(2, mk_cmd four_jobs (''C'', ''JOS'', ''SAI'') @ [''0101000103''])]"
    by blast
  with N F q show ?thesis by blast
qed


section \<open>The order of the polls\<close>

text \<open>
  C3: what one pass of lines 69-71 does with two active processes that are both still
  running, the handle 0 dispatched before the handle 1. The indices the loop visits are
  \<open>-2\<close> and then \<open>-1\<close>, the index \<open>-2\<close> is the front of the list, and the polls are
  recorded in this order: the oldest handle is polled first and the newest last. (By
  \<open>reap_pass\<close> every pass polls each handle once, in the order of the list, removes
  exactly those with an exit code and keeps the others in their order.)
\<close>

theorem reap_polls_oldest_first:
  "py_range (- int (length [0, 1 :: nat])) 0 = [- 2, - 1] \<and>
   py_index [0, 1 :: nat] (- 2) = Inr 0 \<and>
   (case reap all_exit (py_range (- int (length [0, 1 :: nat])) 0)
           ((init four_jobs 0)\<lparr>NextURLNo := 2, Processes := [0, 1]\<rparr>) of
      Inl e \<Rightarrow> None
    | Inr s \<Rightarrow> Some (polled s, Processes s)) = Some ([(0, None), (1, None)], [0, 1])"
  by code_simp

section \<open>The fix-up of footprint files\<close>

lemma fix_file_present:
  assumes "files st f0 = Some df"
    and "''NBots'' \<in> set (columns df) \<and> ''Instance'' \<in> set (columns df)"
  shows "fix_file float_str f0 st = Inr (st\<lparr>stdout := stdout st @ [''fixing: '' @ f0],
      files := (files st)(f0 \<mapsto> fix_frame float_str df)\<rparr>)"
  using assms by (simp add: fix_file_def Let_def)

lemma fix_file_missing:
  assumes "files st f0 = Some df"
    and "\<not> (''NBots'' \<in> set (columns df) \<and> ''Instance'' \<in> set (columns df))"
  shows "fix_file float_str f0 st = Inr (st\<lparr>stdout := stdout st @ [''fixing: '' @ f0, warning]\<rparr>)"
  using assms by (auto simp: fix_file_def Let_def)





text \<open>The loop over distinct files that can all be read ends without an error, and
  has done to each file what its one pass does.\<close>

lemma fix_all_result:
  assumes "distinct fs" and "\<forall>f\<in>set fs. files st f \<noteq> None"
  shows "\<exists>st'. fix_all float_str fs st = Inr st' \<and>
     (\<forall>f. files st' f =
        (if f \<in> set fs
         then map_option (\<lambda>df. if ''NBots'' \<in> set (columns df) \<and> ''Instance'' \<in> set (columns df)
            then fix_frame float_str df else df) (files st f)
         else files st f))"
  using assms
proof (induction fs arbitrary: st)
  case Nil
  then show ?case by simp
next
  case (Cons f0 fs)
  let ?fx = "\<lambda>df. if ''NBots'' \<in> set (columns df) \<and> ''Instance'' \<in> set (columns df)
            then fix_frame float_str df else df"
  from Cons.prems obtain df where df: "files st f0 = Some df" by auto
  have "\<exists>st1. fix_file float_str f0 st = Inr st1 \<and> files st1 = (files st)(f0 \<mapsto> ?fx df)"
  proof (cases "''NBots'' \<in> set (columns df) \<and> ''Instance'' \<in> set (columns df)")
    case True
    with fix_file_present [OF df True, of float_str] show ?thesis by simp
  next
    case False
    from df have "(files st)(f0 \<mapsto> df) = files st" by (rule map_upd_triv)
    with False fix_file_missing [OF df False, of float_str] show ?thesis by auto
  qed
  then obtain st1 where s1: "fix_file float_str f0 st = Inr st1"
    and f1: "files st1 = (files st)(f0 \<mapsto> ?fx df)" by blast
  from Cons.prems have d: "distinct fs" and n: "f0 \<notin> set fs" by auto
  from Cons.prems have e: "\<forall>f\<in>set fs. files st1 f \<noteq> None" by (auto simp: f1)
  from Cons.IH [OF d e] obtain st' where r: "fix_all float_str fs st1 = Inr st'"
    and f': "\<forall>f. files st' f = (if f \<in> set fs then map_option ?fx (files st1 f) else files st1 f)"
    by blast
  have a: "fix_all float_str (f0 # fs) st = Inr st'" using s1 r by simp
  have b: "\<forall>f. files st' f =
      (if f \<in> set (f0 # fs) then map_option ?fx (files st f) else files st f)"
    using f' n df by (auto simp: f1)
  from a b show ?case by blast
qed




end
